theory Spec2Isabelle
  imports Main
begin

section \<open>The IMAP STORE handler (helpers/imap/on-store.js)\<close>

text \<open>
  A shallow embedding of \<^verbatim>\<open>onStore\<close>: the flag normaliser \<^verbatim>\<open>getFlag\<close>, the three
  flag actions, the loop over the fetched message rows, the mailbox flag vocabulary
  update, the transaction and the lock handling around it.

  JavaScript numbers (uid, modseq, modifyIndex) are integer-valued doubles, written as
  integers here; the one sum the handler computes on them, \<^verbatim>\<open>mailbox.modifyIndex + 1\<close>, is
  rounded as the double addition rounds it. A value that may be \<^verbatim>\<open>undefined\<close> is an
  option, and the truthiness test of the source (\<^verbatim>\<open>undefined\<close> and \<^verbatim>\<open>0\<close> are falsy) is
  written out. Flag names are ASCII strings. The delegated
  branch (\<^verbatim>\<open>this.wsp\<close>), which forwards the request to a worker and touches no local
  state, is not part of the model.
\<close>

subsection \<open>Flag names\<close>

abbreviation Seen :: string where "Seen \<equiv> CHR 0x5C # ''Seen''"
abbreviation Flagged :: string where "Flagged \<equiv> CHR 0x5C # ''Flagged''"
abbreviation Deleted :: string where "Deleted \<equiv> CHR 0x5C # ''Deleted''"
abbreviation Draft :: string where "Draft \<equiv> CHR 0x5C # ''Draft''"
abbreviation Junk :: string where "Junk \<equiv> CHR 0x5C # ''Junk''"
abbreviation Trash :: string where "Trash \<equiv> CHR 0x5C # ''Trash''"

text \<open>\<^verbatim>\<open>String.prototype.trim\<close> and \<^verbatim>\<open>toLowerCase\<close>, on ASCII.\<close>

definition isSpace :: "char \<Rightarrow> bool" where
  "isSpace c = (c \<in> set [CHR 0x09, CHR 0x0A, CHR 0x0B, CHR 0x0C, CHR 0x0D, CHR '' ''])"

definition trim :: "string \<Rightarrow> string" where
  "trim s = rev (dropWhile isSpace (rev (dropWhile isSpace s)))"

definition toLowerCase_char :: "char \<Rightarrow> char" where
  "toLowerCase_char c =
     (case map_of (zip ''ABCDEFGHIJKLMNOPQRSTUVWXYZ'' ''abcdefghijklmnopqrstuvwxyz'') c of
        Some d \<Rightarrow> d
      | None \<Rightarrow> c)"

definition toLowerCase :: "string \<Rightarrow> string" where
  "toLowerCase s = map toLowerCase_char s"

text \<open>\<^verbatim>\<open>function getFlag(f) { return f.trim().toLowerCase(); }\<close>\<close>

definition getFlag :: "string \<Rightarrow> string" where
  "getFlag f = toLowerCase (trim f)"

text \<open>
  \<^verbatim>\<open>[...new Set(xs)]\<close>: the elements of \<open>xs\<close> in the order of their first occurrence
  (\<^const>\<open>remdups\<close> keeps the last one).
\<close>

definition dedup :: "'a list \<Rightarrow> 'a list" where
  "dedup xs = rev (remdups (rev xs))"

subsection \<open>JavaScript numbers\<close>

text \<open>
  The sum of two integer-valued doubles is the exact sum rounded to the nearest double,
  ties to the even mantissa. Up to \<open>2 ^ 53\<close> in absolute value every integer is a double;
  above it a double has 53 significant bits, so an integer of \<open>b\<close> bits is rounded to a
  multiple of \<open>2 ^ (b - 53)\<close>. (Overflow to \<^verbatim>\<open>Infinity\<close>, beyond \<open>2 ^ 1024\<close>, is not
  modelled.)
\<close>

function bit_length :: "int \<Rightarrow> nat" where
  "bit_length n = (if n \<le> 0 then 0 else Suc (bit_length (n div 2)))"
  by pat_completeness auto
termination
  by (relation "measure nat") auto

declare bit_length.simps [simp del]

definition double_round :: "int \<Rightarrow> int" where
  "double_round x =
     (if \<bar>x\<bar> \<le> 2 ^ 53 then x
      else
        (let a = \<bar>x\<bar>;
             u = 2 ^ (bit_length a - 53);
             q = a div u;
             r = a mod u;
             q' = (if u < 2 * r \<or> (2 * r = u \<and> odd q) then q + 1 else q)
         in sgn x * (q' * u)))"

definition js_plus :: "int \<Rightarrow> int \<Rightarrow> int" where
  "js_plus x y = double_round (x + y)"

subsection \<open>Data model\<close>

text \<open>
  A row of the \<^verbatim>\<open>Messages\<close> table: the four columns the handler selects (\<^verbatim>\<open>_id\<close>,
  \<^verbatim>\<open>uid\<close>, \<^verbatim>\<open>flags\<close>, \<^verbatim>\<open>modseq\<close>), the column its queries filter on (\<^verbatim>\<open>mailbox\<close>) and
  the five boolean columns its updates write.
\<close>

record message =
  msg_id :: nat
  msg_mailbox :: nat
  uid :: int
  flags :: "string list"
  modseq :: int
  unseen :: bool
  flagged :: bool
  undeleted :: bool
  draft :: bool
  searchable :: bool

record mailbox =
  mb_id :: nat
  modifyIndex :: int
  mb_flags :: "string list"
  specialUse :: "string option"

record database =
  Messages :: "message list"
  Mailboxes :: "mailbox list"

datatype action = ActSet | ActAdd | ActRemove | ActOther string

record update =
  action :: action
  upd_value :: "string list"
  upd_messages :: "int list"
  isUid :: bool
  silent :: bool
  unchangedSince :: "int option"

record session =
  sess_id :: string
  uidList :: "int list"
  condstoreEnabled :: bool

text \<open>
  The response \<^verbatim>\<open>['FETCH', message.uid, {uid, flags, modseq}]\<close>; an attribute the source
  sets to \<^verbatim>\<open>false\<close> is \<open>None\<close>.
\<close>

record fetch_response =
  fr_uid :: int
  fr_attr_uid :: "int option"
  fr_flags :: "string list"
  fr_modseq :: "int option"

text \<open>The notifier entry \<^verbatim>\<open>{command: 'FETCH', ignore, uid, flags, message, modseq}\<close>.\<close>

record change_entry =
  ce_ignore :: string
  ce_uid :: int
  ce_flags :: "string list"
  ce_message :: nat
  ce_modseq :: int

text \<open>The \<^verbatim>\<open>$set\<close> object of a message update: a column is written when it is present.\<close>

record modifier =
  set_flags :: "string list option"
  set_unseen :: "bool option"
  set_flagged :: "bool option"
  set_undeleted :: "bool option"
  set_draft :: "bool option"
  set_searchable :: "bool option"
  set_modseq :: "int option"

definition empty_set :: modifier where
  "empty_set = \<lparr>set_flags = None, set_unseen = None, set_flagged = None, set_undeleted = None,
     set_draft = None, set_searchable = None, set_modseq = None\<rparr>"

datatype error =
    UnknownAction
  | MailboxFlagsExceeds100
  | IMAPError string
  | CollaboratorError string

text \<open>Truthiness of a number that may be \<^verbatim>\<open>undefined\<close>.\<close>

definition truthy :: "int option \<Rightarrow> bool" where
  "truthy v = (case v of None \<Rightarrow> False | Some n \<Rightarrow> n \<noteq> 0)"

subsection \<open>The three actions on one message\<close>

text \<open>
  Each action takes \<^verbatim>\<open>update.value\<close> and \<^verbatim>\<open>message.flags\<close> and gives the new
  \<^verbatim>\<open>message.flags\<close>, \<^verbatim>\<open>updated\<close> and \<^verbatim>\<open>$set\<close>. \<^verbatim>\<open>existingFlags\<close> is a \<^verbatim>\<open>Set\<close>:
  its \<^verbatim>\<open>size\<close> is the number of distinct elements.
\<close>

definition store_set :: "string list \<Rightarrow> string list \<Rightarrow> string list \<times> bool \<times> modifier" where
  "store_set val flgs =
     (let existingFlags = map getFlag flgs;
          updated = (if length (remdups existingFlags) = length val
                     then list_ex (\<lambda>f. getFlag f \<notin> set existingFlags) val else True);
          flgs' = dedup val
      in (flgs', updated,
          if updated
          then empty_set\<lparr>set_flags := Some flgs',
                 set_unseen := Some (Seen \<notin> set flgs'),
                 set_flagged := Some (Flagged \<in> set flgs'),
                 set_undeleted := Some (Deleted \<notin> set flgs'),
                 set_draft := Some (Draft \<in> set flgs'),
                 set_searchable := Some (Deleted \<notin> set flgs')\<rparr>
          else empty_set))"

text \<open>
  In \<^verbatim>\<open>add\<close> the filter callback tests each input flag against \<^verbatim>\<open>existingFlags\<close>, which
  it does not extend; the flags that pass are \<^verbatim>\<open>newFlags\<close>. The outer test "one of
  the four system flags is new" only wraps the four inner tests.
\<close>

definition store_add :: "string list \<Rightarrow> string list \<Rightarrow> string list \<times> bool \<times> modifier" where
  "store_add val flgs =
     (let existingFlags = map getFlag flgs;
          newFlags = filter (\<lambda>f. getFlag f \<notin> set existingFlags) val;
          updated = (newFlags \<noteq> []);
          flgs' = dedup (flgs @ newFlags)
      in (flgs', updated,
          if updated
          then empty_set\<lparr>set_flags := Some flgs',
                 set_unseen := (if Seen \<in> set newFlags then Some False else None),
                 set_flagged := (if Flagged \<in> set newFlags then Some True else None),
                 set_undeleted := (if Deleted \<in> set newFlags then Some False else None),
                 set_searchable := (if Deleted \<in> set newFlags then Some False else None),
                 set_draft := (if Draft \<in> set newFlags then Some True else None)\<rparr>
          else empty_set))"

definition store_remove ::
  "string option \<Rightarrow> string list \<Rightarrow> string list \<Rightarrow> string list \<times> bool \<times> modifier" where
  "store_remove special val flgs =
     (let flagUpdates = map getFlag val;
          oldFlags = filter (\<lambda>f. getFlag f \<in> set flagUpdates) flgs;
          updated = (oldFlags \<noteq> []);
          flgs' = dedup (filter (\<lambda>f. getFlag f \<notin> set flagUpdates) flgs)
      in (flgs', updated,
          if updated
          then empty_set\<lparr>set_flags := Some flgs',
                 set_unseen := (if Seen \<in> set oldFlags then Some True else None),
                 set_flagged := (if Flagged \<in> set oldFlags then Some False else None),
                 set_undeleted := (if Deleted \<in> set oldFlags then Some True else None),
                 set_searchable :=
                   (if Deleted \<in> set oldFlags \<and> special \<notin> set [Some Junk, Some Trash]
                    then Some True else None),
                 set_draft := (if Draft \<in> set oldFlags then Some False else None)\<rparr>
          else empty_set))"

text \<open>The \<^verbatim>\<open>switch (update.action)\<close>; its default branch throws.\<close>

definition apply_action ::
  "mailbox \<Rightarrow> update \<Rightarrow> string list \<Rightarrow> error + (string list \<times> bool \<times> modifier)" where
  "apply_action mb upd flgs =
     (case action upd of
        ActSet \<Rightarrow> Inr (store_set (upd_value upd) flgs)
      | ActAdd \<Rightarrow> Inr (store_add (upd_value upd) flgs)
      | ActRemove \<Rightarrow> Inr (store_remove (specialUse mb) (upd_value upd) flgs)
      | ActOther a \<Rightarrow> Inl UnknownAction)"

subsection \<open>The loop over the fetched rows\<close>

text \<open>
  The arrays and the variable the transaction callback closes over, together with the
  \<^verbatim>\<open>Messages\<close> table as the statements run so far have left it.
\<close>

record loop_state =
  rows :: "message list"
  modified :: "int list"
  writeStream :: "fetch_response list"
  entries :: "change_entry list"
  newModseq :: "int option"

definition apply_modifier :: "modifier \<Rightarrow> message \<Rightarrow> message" where
  "apply_modifier s r =
     r\<lparr>flags := (case set_flags s of Some v \<Rightarrow> v | None \<Rightarrow> flags r),
       unseen := (case set_unseen s of Some v \<Rightarrow> v | None \<Rightarrow> unseen r),
       flagged := (case set_flagged s of Some v \<Rightarrow> v | None \<Rightarrow> flagged r),
       undeleted := (case set_undeleted s of Some v \<Rightarrow> v | None \<Rightarrow> undeleted r),
       draft := (case set_draft s of Some v \<Rightarrow> v | None \<Rightarrow> draft r),
       searchable := (case set_searchable s of Some v \<Rightarrow> v | None \<Rightarrow> searchable r),
       modseq := (case set_modseq s of Some v \<Rightarrow> v | None \<Rightarrow> modseq r)\<rparr>"

text \<open>
  \<^verbatim>\<open>UPDATE Messages SET ... WHERE _id = message._id AND mailbox = mailbox._id AND
  uid = message.uid AND modseq < newModseq\<close>.
\<close>

definition write_applies :: "message \<Rightarrow> mailbox \<Rightarrow> int \<Rightarrow> message \<Rightarrow> bool" where
  "write_applies message mb nm r =
     (msg_id r = msg_id message \<and> msg_mailbox r = mb_id mb \<and> uid r = uid message \<and> modseq r < nm)"

definition update_Messages ::
  "message \<Rightarrow> mailbox \<Rightarrow> int \<Rightarrow> modifier \<Rightarrow> message list \<Rightarrow> message list" where
  "update_Messages message mb nm s rws =
     map (\<lambda>r. if write_applies message mb nm r then apply_modifier s r else r) rws"

text \<open>
  The first test of the loop body. \<^verbatim>\<open>session.selected.uidList\<close> is an array here: the
  handler has read its \<^verbatim>\<open>length\<close> already.
\<close>

definition skip_queryAll :: "bool \<Rightarrow> session \<Rightarrow> message \<Rightarrow> bool" where
  "skip_queryAll queryAll sess message = (queryAll \<and> uid message \<notin> set (uidList sess))"

text \<open>\<^verbatim>\<open>update.unchangedSince && message.modseq > update.unchangedSince\<close>\<close>

definition skip_unchangedSince :: "update \<Rightarrow> message \<Rightarrow> bool" where
  "skip_unchangedSince upd message =
     (case unchangedSince upd of
        None \<Rightarrow> False
      | Some g \<Rightarrow> g \<noteq> 0 \<and> modseq message > g)"

text \<open>\<^verbatim>\<open>mailbox.modifyIndex + 1\<close>, a sum of doubles.\<close>

definition next_modseq :: "mailbox \<Rightarrow> int" where
  "next_modseq mb = js_plus (modifyIndex mb) 1"

text \<open>\<^verbatim>\<open>if (!newModseq) newModseq = mailbox.modifyIndex + 1\<close>\<close>

definition get_modseq :: "int option \<Rightarrow> mailbox \<Rightarrow> int" where
  "get_modseq nm mb =
     (case nm of
        None \<Rightarrow> next_modseq mb
      | Some n \<Rightarrow> if n \<noteq> 0 then n else next_modseq mb)"

text \<open>The response pushed to \<^verbatim>\<open>writeStream\<close> and the entry pushed to \<^verbatim>\<open>entries\<close>.\<close>

definition fetch_response_of ::
  "update \<Rightarrow> session \<Rightarrow> message \<Rightarrow> string list \<Rightarrow> int \<Rightarrow> fetch_response" where
  "fetch_response_of upd sess message flgs' nm =
     \<lparr>fr_uid = uid message,
      fr_attr_uid = (if isUid upd then Some (uid message) else None),
      fr_flags = flgs',
      fr_modseq = (if condstoreEnabled sess then Some nm else None)\<rparr>"

definition change_entry_of :: "session \<Rightarrow> message \<Rightarrow> string list \<Rightarrow> int \<Rightarrow> change_entry" where
  "change_entry_of sess message flgs' nm =
     \<lparr>ce_ignore = sess_id sess, ce_uid = uid message, ce_flags = flgs',
      ce_message = msg_id message, ce_modseq = nm\<rparr>"

text \<open>One iteration of \<^verbatim>\<open>for (const result of messages)\<close>.\<close>

definition process_message ::
  "mailbox \<Rightarrow> update \<Rightarrow> session \<Rightarrow> bool \<Rightarrow> loop_state \<Rightarrow> message \<Rightarrow> error + loop_state" where
  "process_message mb upd sess queryAll st message =
     (if skip_queryAll queryAll sess message then Inr st
      else if skip_unchangedSince upd message
      then Inr (st\<lparr>modified := modified st @ [uid message]\<rparr>)
      else
        (case apply_action mb upd (flags message) of
           Inl e \<Rightarrow> Inl e
         | Inr (flgs', updated, s) \<Rightarrow>
             if updated
             then
               (let nm = get_modseq (newModseq st) mb
                in Inr (st\<lparr>rows := update_Messages message mb nm (s\<lparr>set_modseq := Some nm\<rparr>)
                                     (rows st),
                          writeStream :=
                            (if silent upd \<and> \<not> condstoreEnabled sess then writeStream st
                             else writeStream st @ [fetch_response_of upd sess message flgs' nm]),
                          entries := entries st @ [change_entry_of sess message flgs' nm],
                          newModseq := Some nm\<rparr>))
             else Inr st))"

fun store_loop ::
  "mailbox \<Rightarrow> update \<Rightarrow> session \<Rightarrow> bool \<Rightarrow> loop_state \<Rightarrow> message list \<Rightarrow> error + loop_state"
where
  "store_loop mb upd sess queryAll st [] = Inr st"
| "store_loop mb upd sess queryAll st (message # rest) =
     (case process_message mb upd sess queryAll st message of
        Inl e \<Rightarrow> Inl e
      | Inr st' \<Rightarrow> store_loop mb upd sess queryAll st' rest)"

subsection \<open>The mailbox flag vocabulary\<close>

text \<open>
  The loop over \<^verbatim>\<open>update.value\<close> that collects \<^verbatim>\<open>newFlags\<close>: the limit is tested before
  each input flag, against \<^verbatim>\<open>mailboxFlags\<close> (system flags and mailbox flags, normalised),
  which the loop does not extend.
\<close>

fun find_new_flags :: "string list \<Rightarrow> string list \<Rightarrow> string list \<Rightarrow> error + string list" where
  "find_new_flags mailboxFlags newFlags [] = Inr newFlags"
| "find_new_flags mailboxFlags newFlags (flag # rest) =
     (if length mailboxFlags + length newFlags \<ge> 100 then Inl MailboxFlagsExceeds100
      else find_new_flags mailboxFlags
             (if getFlag flag \<in> set mailboxFlags then newFlags else newFlags @ [flag]) rest)"

text \<open>\<^verbatim>\<open>imapTools.systemFlags\<close> is a constant of the IMAP library: a parameter.\<close>

definition mailbox_newFlags :: "string list \<Rightarrow> mailbox \<Rightarrow> update \<Rightarrow> error + string list" where
  "mailbox_newFlags sysFlags mb upd =
     (if action upd = ActRemove then Inr []
      else find_new_flags (map getFlag (sysFlags @ mb_flags mb)) [] (upd_value upd))"

text \<open>\<^verbatim>\<open>UPDATE Mailboxes SET ... WHERE _id = mailbox._id\<close>, with the \<^verbatim>\<open>$set\<close> built before it.\<close>

definition update_Mailboxes ::
  "mailbox \<Rightarrow> int option \<Rightarrow> string list \<Rightarrow> mailbox list \<Rightarrow> mailbox list" where
  "update_Mailboxes mb nm newFlags mbs =
     map (\<lambda>r. if mb_id r = mb_id mb
              then r\<lparr>modifyIndex := (case nm of
                                        None \<Rightarrow> modifyIndex r
                                      | Some n \<Rightarrow> if n \<noteq> 0 then n else modifyIndex r),
                     mb_flags := (if newFlags = [] then mb_flags r
                                  else dedup (mb_flags mb @ newFlags))\<rparr>
              else r) mbs"

subsection \<open>The transaction\<close>

text \<open>
  The state the callback starts from: the three arrays are empty and \<^verbatim>\<open>newModseq\<close> is
  \<^verbatim>\<open>undefined\<close>.
\<close>

definition init_state :: "database \<Rightarrow> loop_state" where
  "init_state d =
     \<lparr>rows = Messages d, modified = [], writeStream = [], entries = [], newModseq = None\<rparr>"

definition transaction_body ::
  "string list \<Rightarrow> database \<Rightarrow> mailbox \<Rightarrow> update \<Rightarrow> session \<Rightarrow> bool \<Rightarrow> message list
     \<Rightarrow> error + (database \<times> loop_state)" where
  "transaction_body sysFlags d mb upd sess queryAll msgs =
     (case store_loop mb upd sess queryAll (init_state d) msgs of
        Inl e \<Rightarrow> Inl e
      | Inr st \<Rightarrow>
          (case mailbox_newFlags sysFlags mb upd of
             Inl e \<Rightarrow> Inl e
           | Inr newFlags \<Rightarrow>
               Inr (\<lparr>Messages = rows st,
                     Mailboxes = (if truthy (newModseq st) \<or> newFlags \<noteq> []
                                  then update_Mailboxes mb (newModseq st) newFlags (Mailboxes d)
                                  else Mailboxes d)\<rparr>, st)))"

text \<open>
  \<^verbatim>\<open>if (messages.length > 0) session.db.transaction(...)()\<close> inside \<^verbatim>\<open>try\<close>: the
  storage primitive rolls the statements back when the callback throws, and the handler
  keeps the error in \<^verbatim>\<open>err\<close>.
\<close>

definition run_transaction ::
  "string list \<Rightarrow> database \<Rightarrow> mailbox \<Rightarrow> update \<Rightarrow> session \<Rightarrow> bool \<Rightarrow> message list
     \<Rightarrow> database \<times> (error + loop_state)" where
  "run_transaction sysFlags d mb upd sess queryAll msgs =
     (if msgs = []
      then (d, Inr (init_state d))
      else
        (case transaction_body sysFlags d mb upd sess queryAll msgs of
           Inl e \<Rightarrow> (d, Inl e)
         | Inr (d', st) \<Rightarrow> (d', Inr st)))"

subsection \<open>The handler\<close>

text \<open>
  What the handler's collaborators do is a parameter: the constant \<^verbatim>\<open>systemFlags\<close>, the
  uid predicate that \<^verbatim>\<open>tools.checkRangeQuery(update.messages)\<close> denotes, and which of the
  calls that can fail do fail (\<^verbatim>\<open>query_throws\<close> stands for an error while the select
  statement is built or run). A failure of \<^verbatim>\<open>updateStorageUsed\<close> is caught and logged on
  the spot and changes neither the state nor the answer, so it has no flag.
\<close>

record env =
  systemFlags :: "string list"
  checkRangeQuery :: "int list \<Rightarrow> int \<Rightarrow> bool"
  refreshSession_throws :: bool
  acquireLock_throws :: bool
  findOne_throws :: bool
  query_throws :: bool
  releaseLock_throws :: bool
  addEntries_throws :: bool

text \<open>
  The state the handler acts on: the database, whether the lock the handler acquires is
  held, and the entry lists handed to the notifier so far.
\<close>

record world =
  db :: database
  lock_held :: bool
  notified :: "change_entry list list"

text \<open>
  The three ways the handler calls \<^verbatim>\<open>fn\<close>: \<^verbatim>\<open>fn(null, true, modified, writeStream)\<close>,
  \<^verbatim>\<open>fn(null, err.imapResponse)\<close> and \<^verbatim>\<open>fn(refineAndLogError(err, ...))\<close>.
\<close>

datatype outcome =
    Success "int list" "fetch_response list"
  | Rejected string
  | Failed error

text \<open>
  The outer \<^verbatim>\<open>catch\<close>: an error that carries \<^verbatim>\<open>imapResponse\<close> is answered with that
  response, any other error is handed to the caller.
\<close>

definition outer_catch :: "error \<Rightarrow> outcome" where
  "outer_catch err = (case err of IMAPError response \<Rightarrow> Rejected response | _ \<Rightarrow> Failed err)"

definition findOne :: "database \<Rightarrow> nat \<Rightarrow> mailbox option" where
  "findOne d mailboxId = find (\<lambda>m. mb_id m = mailboxId) (Mailboxes d)"

definition is_queryAll :: "update \<Rightarrow> session \<Rightarrow> bool" where
  "is_queryAll upd sess = (length (upd_messages upd) = length (uidList sess))"

text \<open>The \<^verbatim>\<open>select\<close> statement: rows of the mailbox, by uid unless \<^verbatim>\<open>queryAll\<close>, sorted by uid.\<close>

definition select_Messages :: "env \<Rightarrow> database \<Rightarrow> mailbox \<Rightarrow> update \<Rightarrow> bool \<Rightarrow> message list" where
  "select_Messages e d mb upd queryAll =
     sort_key uid
       (filter (\<lambda>r. msg_mailbox r = mb_id mb \<and>
                     (queryAll \<or> checkRangeQuery e (upd_messages upd) (uid r)))
          (Messages d))"

definition onStore :: "env \<Rightarrow> world \<Rightarrow> nat \<Rightarrow> update \<Rightarrow> session \<Rightarrow> world \<times> outcome" where
  "onStore e w mailboxId upd sess =
     (if refreshSession_throws e then (w, outer_catch (CollaboratorError ''refreshSession''))
      else if acquireLock_throws e then (w, outer_catch (CollaboratorError ''acquireLock''))
      else
        (let w1 = w\<lparr>lock_held := True\<rparr> in
         if findOne_throws e then (w1, outer_catch (CollaboratorError ''findOne''))
         else
           (case findOne (db w1) mailboxId of
              None \<Rightarrow> (w1, outer_catch (IMAPError ''NONEXISTENT''))
            | Some mb \<Rightarrow>
                if query_throws e then (w1, outer_catch (CollaboratorError ''query''))
                else
                  (let queryAll = is_queryAll upd sess;
                       msgs = select_Messages e (db w1) mb upd queryAll;
                       (d', res) = run_transaction (systemFlags e) (db w1) mb upd sess queryAll msgs;
                       w2 = w1\<lparr>db := d', lock_held := releaseLock_throws e\<rparr>
                   in case res of
                        Inl err \<Rightarrow> (w2, outer_catch err)
                      | Inr st \<Rightarrow>
                          if entries st = [] then (w2, Success (modified st) (writeStream st))
                          else if addEntries_throws e
                          then (w2, outer_catch (CollaboratorError ''addEntries''))
                          else (w2\<lparr>notified := notified w2 @ [entries st]\<rparr>,
                                Success (modified st) (writeStream st))))))"

subsection \<open>Concrete inputs\<close>

text \<open>
  A mailbox with three messages, a session that knows the three uids, and commands on
  them. The system flags are those of the IMAP library; no collaborator fails.
\<close>

definition env0 :: env where
  "env0 = \<lparr>systemFlags = [CHR 0x5C # ''answered'', CHR 0x5C # ''flagged'', CHR 0x5C # ''draft'',
                           CHR 0x5C # ''deleted'', CHR 0x5C # ''seen''],
            checkRangeQuery = (\<lambda>uids u. u \<in> set uids),
            refreshSession_throws = False, acquireLock_throws = False, findOne_throws = False,
            query_throws = False, releaseLock_throws = False,
            addEntries_throws = False\<rparr>"

definition mbox :: "string list \<Rightarrow> string option \<Rightarrow> mailbox" where
  "mbox fl su = \<lparr>mb_id = 1, modifyIndex = 7, mb_flags = fl, specialUse = su\<rparr>"

definition msg :: "nat \<Rightarrow> int \<Rightarrow> string list \<Rightarrow> int \<Rightarrow> message" where
  "msg i u fl ms =
     \<lparr>msg_id = i, msg_mailbox = 1, uid = u, flags = fl, modseq = ms,
      unseen = (Seen \<notin> set fl), flagged = (Flagged \<in> set fl), undeleted = (Deleted \<notin> set fl),
      draft = (Draft \<in> set fl), searchable = (Deleted \<notin> set fl)\<rparr>"

definition world_of :: "message list \<Rightarrow> mailbox \<Rightarrow> world" where
  "world_of ms mb = \<lparr>db = \<lparr>Messages = ms, Mailboxes = [mb]\<rparr>, lock_held = False, notified = []\<rparr>"

definition world0 :: world where
  "world0 = world_of [msg 10 1 [] 3, msg 11 2 [] 5, msg 12 3 [] 7] (mbox [] None)"

definition sess0 :: session where
  "sess0 = \<lparr>sess_id = ''s1'', uidList = [1, 2, 3], condstoreEnabled = True\<rparr>"

definition cmd :: "action \<Rightarrow> string list \<Rightarrow> int list \<Rightarrow> int option \<Rightarrow> update" where
  "cmd a val uids guard =
     \<lparr>action = a, upd_value = val, upd_messages = uids, isUid = True, silent = False,
      unchangedSince = guard\<rparr>"

text \<open>Ninety-five mailbox flags, pairwise distinct: \<open>k\<close>, \<open>kx\<close>, \<open>kxx\<close>, ...\<close>

definition custom95 :: "string list" where
  "custom95 = map (\<lambda>n. CHR ''k'' # replicate n CHR ''x'') [0..<95]"

text \<open>A hundred input flags, pairwise distinct, none of them a system flag.\<close>

definition fresh100 :: "string list" where
  "fresh100 = map (\<lambda>n. CHR ''n'' # replicate n CHR ''x'') [0..<100]"

section \<open>Properties\<close>

subsection \<open>Notions the properties are stated with\<close>

text \<open>The four derived booleans of a row agree with its flag list.\<close>

definition derived_ok :: "message \<Rightarrow> bool" where
  "derived_ok r =
     (unseen r = (Seen \<notin> set (flags r)) \<and> flagged r = (Flagged \<in> set (flags r)) \<and>
      undeleted r = (Deleted \<notin> set (flags r)) \<and> draft r = (Draft \<in> set (flags r)))"

text \<open>
  The row an iteration leaves behind for the row \<open>r\<close> it was fetched from, when the new
  modification sequence number is \<open>next_modseq mb\<close>.
\<close>

definition stored_row :: "mailbox \<Rightarrow> update \<Rightarrow> session \<Rightarrow> bool \<Rightarrow> message \<Rightarrow> message" where
  "stored_row mb upd sess queryAll r =
     (if skip_queryAll queryAll sess r \<or> skip_unchangedSince upd r then r
      else
        (case apply_action mb upd (flags r) of
           Inl e \<Rightarrow> r
         | Inr (flgs', updated, s) \<Rightarrow>
             if updated \<and> modseq r < next_modseq mb
             then apply_modifier (s\<lparr>set_modseq := Some (next_modseq mb)\<rparr>) r
             else r))"

text \<open>The iteration for \<open>m\<close> reaches the write: \<open>m\<close> is not skipped and \<^verbatim>\<open>updated\<close> is true.\<close>

definition yields_update :: "mailbox \<Rightarrow> update \<Rightarrow> session \<Rightarrow> bool \<Rightarrow> message \<Rightarrow> bool" where
  "yields_update mb upd sess queryAll m =
     (\<not> skip_queryAll queryAll sess m \<and> \<not> skip_unchangedSince upd m \<and>
      (case apply_action mb upd (flags m) of Inl e \<Rightarrow> False | Inr (flgs', updated, s) \<Rightarrow> updated))"

text \<open>\<^verbatim>\<open>newModseq\<close> is still unset or holds \<open>next_modseq mb\<close>.\<close>

definition modseq_inv :: "mailbox \<Rightarrow> loop_state \<Rightarrow> bool" where
  "modseq_inv mb st = (newModseq st = None \<or> newModseq st = Some (next_modseq mb))"

text \<open>The flag list an iteration computes for \<open>m\<close>.\<close>

definition new_flags :: "mailbox \<Rightarrow> update \<Rightarrow> message \<Rightarrow> string list" where
  "new_flags mb upd m =
     (case apply_action mb upd (flags m) of Inl e \<Rightarrow> flags m | Inr (flgs', updated, s) \<Rightarrow> flgs')"

text \<open>The iteration for \<open>m\<close> ends in the \<^verbatim>\<open>unchangedSince\<close> branch.\<close>

definition guard_skipped :: "update \<Rightarrow> session \<Rightarrow> bool \<Rightarrow> message \<Rightarrow> bool" where
  "guard_skipped upd sess queryAll m =
     (\<not> skip_queryAll queryAll sess m \<and> skip_unchangedSince upd m)"

text \<open>
  What the loop over \<open>msgs\<close> adds to the three arrays and leaves in \<^verbatim>\<open>newModseq\<close>, from
  state \<open>st\<close> to state \<open>st'\<close>.
\<close>

definition loop_outputs ::
  "mailbox \<Rightarrow> update \<Rightarrow> session \<Rightarrow> bool \<Rightarrow> loop_state \<Rightarrow> message list \<Rightarrow> loop_state \<Rightarrow> bool" where
  "loop_outputs mb upd sess queryAll st msgs st' =
     (let ys = filter (yields_update mb upd sess queryAll) msgs; nm = next_modseq mb in
      modified st' = modified st @ map uid (filter (guard_skipped upd sess queryAll) msgs) \<and>
      entries st' = entries st @ map (\<lambda>m. change_entry_of sess m (new_flags mb upd m) nm) ys \<and>
      writeStream st' = writeStream st @
         (if silent upd \<and> \<not> condstoreEnabled sess then []
          else map (\<lambda>m. fetch_response_of upd sess m (new_flags mb upd m) nm) ys) \<and>
      newModseq st' = (if ys = [] then newModseq st else Some nm))"

text \<open>
  The input flag \<open>f\<close> is not in the mailbox vocabulary (system flags and mailbox flags,
  compared after normalisation).
\<close>

definition is_new_flag :: "string list \<Rightarrow> mailbox \<Rightarrow> string \<Rightarrow> bool" where
  "is_new_flag sysFlags mb f = (getFlag f \<notin> set (map getFlag (sysFlags @ mb_flags mb)))"

text \<open>
  The limit test fires at some input position \<open>i\<close>: the system flags, the mailbox flags
  and the new flags among the first \<open>i\<close> inputs are 100 or more.
\<close>

definition capacity_exceeded :: "string list \<Rightarrow> mailbox \<Rightarrow> update \<Rightarrow> bool" where
  "capacity_exceeded sysFlags mb upd =
     list_ex (\<lambda>i. 100 \<le> length sysFlags + length (mb_flags mb) +
                       length (filter (is_new_flag sysFlags mb) (take i (upd_value upd))))
       [0..<length (upd_value upd)]"

text \<open>The row \<open>r\<close> satisfies the condition of the \<^verbatim>\<open>select\<close> statement.\<close>

definition is_candidate :: "env \<Rightarrow> mailbox \<Rightarrow> update \<Rightarrow> bool \<Rightarrow> message \<Rightarrow> bool" where
  "is_candidate e mb upd queryAll r =
     (msg_mailbox r = mb_id mb \<and> (queryAll \<or> checkRangeQuery e (upd_messages upd) (uid r)))"

text \<open>The row is as before or carries the modification sequence number \<open>nm\<close>.\<close>

definition same_or_stamped :: "int \<Rightarrow> message \<Rightarrow> message \<Rightarrow> bool" where
  "same_or_stamped nm r r' = (r' = r \<or> modseq r' = nm)"

subsection \<open>Numbers\<close>

text \<open>
  Below \<open>2 ^ 53\<close> the sum is exact; at \<open>2 ^ 53\<close> adding one gives \<open>2 ^ 53\<close>
  again.
\<close>

lemma js_plus_safe: "\<bar>x + y\<bar> \<le> 2 ^ 53 \<Longrightarrow> js_plus x y = x + y"
  by (simp add: js_plus_def double_round_def)

lemma next_modseq_safe: "\<bar>modifyIndex mb\<bar> < 2 ^ 53 \<Longrightarrow> next_modseq mb = modifyIndex mb + 1"
  unfolding next_modseq_def by (rule js_plus_safe) simp

lemma bit_length_edge: "bit_length 9007199254740993 = 54"
  by (simp add: bit_length.simps)

lemma js_plus_edge: "js_plus (2 ^ 53) 1 = 2 ^ 53"
  by (simp add: js_plus_def double_round_def Let_def bit_length_edge)

lemma next_modseq_edge: "modifyIndex mb = 2 ^ 53 \<Longrightarrow> next_modseq mb = modifyIndex mb"
  unfolding next_modseq_def using js_plus_edge by simp

subsection \<open>One message\<close>

lemma set_dedup [simp]: "set (dedup xs) = set xs"
  by (simp add: dedup_def)

lemma store_set_derived:
  assumes "store_set val (flags r) = (f', True, s)"
  shows "derived_ok (apply_modifier (s\<lparr>set_modseq := Some nm\<rparr>) r)"
proof -
  from assms have s: "s = empty_set\<lparr>set_flags := Some (dedup val),
                 set_unseen := Some (Seen \<notin> set (dedup val)),
                 set_flagged := Some (Flagged \<in> set (dedup val)),
                 set_undeleted := Some (Deleted \<notin> set (dedup val)),
                 set_draft := Some (Draft \<in> set (dedup val)),
                 set_searchable := Some (Deleted \<notin> set (dedup val))\<rparr>"
    unfolding store_set_def Let_def by (auto split: if_splits)
  show ?thesis unfolding s derived_ok_def apply_modifier_def empty_set_def by simp
qed

lemma store_add_derived:
  assumes "store_add val (flags r) = (f', True, s)" and "derived_ok r"
  shows "derived_ok (apply_modifier (s\<lparr>set_modseq := Some nm\<rparr>) r)"
proof -
  define newFlags where "newFlags = filter (\<lambda>f. getFlag f \<notin> set (map getFlag (flags r))) val"
  from assms(1) have s: "s = empty_set\<lparr>set_flags := Some (dedup (flags r @ newFlags)),
                 set_unseen := (if Seen \<in> set newFlags then Some False else None),
                 set_flagged := (if Flagged \<in> set newFlags then Some True else None),
                 set_undeleted := (if Deleted \<in> set newFlags then Some False else None),
                 set_searchable := (if Deleted \<in> set newFlags then Some False else None),
                 set_draft := (if Draft \<in> set newFlags then Some True else None)\<rparr>"
    unfolding store_add_def Let_def newFlags_def[symmetric] by (auto split: if_splits)
  show ?thesis using assms(2) unfolding s derived_ok_def apply_modifier_def empty_set_def by simp
qed

lemma store_remove_derived:
  assumes "store_remove sp val (flags r) = (f', True, s)" and "derived_ok r"
  shows "derived_ok (apply_modifier (s\<lparr>set_modseq := Some nm\<rparr>) r)"
proof -
  define P where "P = (\<lambda>f. getFlag f \<in> set (map getFlag val))"
  define oldFlags where "oldFlags = filter P (flags r)"
  from assms(1) have s: "s = empty_set\<lparr>set_flags := Some (dedup (filter (\<lambda>f. \<not> P f) (flags r))),
                 set_unseen := (if Seen \<in> set oldFlags then Some True else None),
                 set_flagged := (if Flagged \<in> set oldFlags then Some False else None),
                 set_undeleted := (if Deleted \<in> set oldFlags then Some True else None),
                 set_searchable :=
                   (if Deleted \<in> set oldFlags \<and> sp \<notin> set [Some Junk, Some Trash]
                    then Some True else None),
                 set_draft := (if Draft \<in> set oldFlags then Some False else None)\<rparr>"
    unfolding store_remove_def Let_def oldFlags_def P_def by (auto split: if_splits)
  have mem: "\<And>x. x \<in> set oldFlags \<longleftrightarrow> x \<in> set (flags r) \<and> P x"
    by (simp add: oldFlags_def)
  show ?thesis using assms(2) unfolding s derived_ok_def apply_modifier_def empty_set_def
    by (simp add: mem) blast
qed

lemma apply_action_derived:
  assumes "apply_action mb upd (flags r) = Inr (f', True, s)" and "derived_ok r"
  shows "derived_ok (apply_modifier (s\<lparr>set_modseq := Some nm\<rparr>) r)"
  using assms unfolding apply_action_def
  by (cases "action upd") (simp_all add: store_set_derived store_add_derived store_remove_derived)

lemma get_modseq_inv: "modseq_inv mb st \<Longrightarrow> get_modseq (newModseq st) mb = next_modseq mb"
  by (auto simp: modseq_inv_def get_modseq_def)

lemma msg_id_apply_modifier [simp]: "msg_id (apply_modifier s r) = msg_id r"
  by (simp add: apply_modifier_def)

lemma msg_id_stored_row [simp]: "msg_id (stored_row mb upd sess qa r) = msg_id r"
  by (simp add: stored_row_def split: sum.splits prod.splits)

lemma process_message_cases:
  assumes "process_message mb upd sess qa st m = Inr st'"
  shows "(\<not> yields_update mb upd sess qa m \<and> \<not> guard_skipped upd sess qa m \<and> st' = st) \<or>
         (\<not> yields_update mb upd sess qa m \<and> guard_skipped upd sess qa m \<and>
            st' = st\<lparr>modified := modified st @ [uid m]\<rparr>) \<or>
         (yields_update mb upd sess qa m \<and>
            (\<exists>flgs' s. apply_action mb upd (flags m) = Inr (flgs', True, s) \<and>
               st' = st\<lparr>rows := update_Messages m mb (get_modseq (newModseq st) mb)
                                  (s\<lparr>set_modseq := Some (get_modseq (newModseq st) mb)\<rparr>) (rows st),
                        writeStream :=
                          (if silent upd \<and> \<not> condstoreEnabled sess then writeStream st
                           else writeStream st @
                             [fetch_response_of upd sess m flgs' (get_modseq (newModseq st) mb)]),
                        entries := entries st @
                          [change_entry_of sess m flgs' (get_modseq (newModseq st) mb)],
                        newModseq := Some (get_modseq (newModseq st) mb)\<rparr>))"
proof (cases "skip_queryAll qa sess m")
  case True
  with assms show ?thesis by (simp add: process_message_def yields_update_def guard_skipped_def)
next
  case nq: False
  show ?thesis
  proof (cases "skip_unchangedSince upd m")
    case True
    with assms nq show ?thesis by (simp add: process_message_def yields_update_def guard_skipped_def)
  next
    case ng: False
    show ?thesis
    proof (cases "apply_action mb upd (flags m)")
      case (Inl e)
      with assms nq ng show ?thesis by (simp add: process_message_def)
    next
      case (Inr t)
      obtain f' u s where t: "t = (f', u, s)" by (cases t)
      show ?thesis
      proof (cases u)
        case True
        with assms nq ng Inr t show ?thesis
          by (simp add: process_message_def yields_update_def guard_skipped_def Let_def)
      next
        case False
        with assms nq ng Inr t show ?thesis
          by (simp add: process_message_def yields_update_def guard_skipped_def)
      qed
    qed
  qed
qed

subsection \<open>The loop\<close>

lemma stored_row_no_update: "\<not> yields_update mb upd sess qa m \<Longrightarrow> stored_row mb upd sess qa m = m"
  by (auto simp: yields_update_def stored_row_def split: sum.splits prod.splits)

lemma stored_row_update:
  assumes "yields_update mb upd sess qa m" and "apply_action mb upd (flags m) = Inr (f', u, s)"
  shows "stored_row mb upd sess qa m =
           (if modseq m < next_modseq mb
            then apply_modifier (s\<lparr>set_modseq := Some (next_modseq mb)\<rparr>) m else m)"
  using assms by (simp add: yields_update_def stored_row_def)

lemma process_message_rows:
  assumes pm: "process_message mb upd sess qa st m = Inr st'"
    and inv: "modseq_inv mb st"
    and key: "\<forall>r\<in>set (rows st). msg_id r = msg_id m \<longrightarrow> r = m"
    and mbx: "msg_mailbox m = mb_id mb"
  shows "rows st' = map (\<lambda>r. if r = m then stored_row mb upd sess qa r else r) (rows st)"
    and "modseq_inv mb st'"
proof -
  have nm: "get_modseq (newModseq st) mb = next_modseq mb"
    using inv by (rule get_modseq_inv)
  from process_message_cases[OF pm] consider
      (skip) "\<not> yields_update mb upd sess qa m" "rows st' = rows st" "newModseq st' = newModseq st"
    | (upd) f' s where "yields_update mb upd sess qa m"
        "apply_action mb upd (flags m) = Inr (f', True, s)"
        "rows st' = update_Messages m mb (next_modseq mb)
                      (s\<lparr>set_modseq := Some (next_modseq mb)\<rparr>) (rows st)"
        "newModseq st' = Some (next_modseq mb)"
    unfolding nm by auto
  then have "rows st' = map (\<lambda>r. if r = m then stored_row mb upd sess qa r else r) (rows st)
             \<and> modseq_inv mb st'"
  proof cases
    case skip
    have "map (\<lambda>r. if r = m then stored_row mb upd sess qa r else r) (rows st) = rows st"
      using stored_row_no_update[OF skip(1)] by (simp add: map_idI)
    with skip inv show ?thesis by (simp add: modseq_inv_def)
  next
    case upd
    have "update_Messages m mb (next_modseq mb)
            (s\<lparr>set_modseq := Some (next_modseq mb)\<rparr>) (rows st)
          = map (\<lambda>r. if r = m then stored_row mb upd sess qa r else r) (rows st)"
      unfolding update_Messages_def
    proof (rule map_cong[OF refl])
      fix r assume r: "r \<in> set (rows st)"
      show "(if write_applies m mb (next_modseq mb) r
             then apply_modifier (s\<lparr>set_modseq := Some (next_modseq mb)\<rparr>) r else r)
          = (if r = m then stored_row mb upd sess qa r else r)"
      proof (cases "r = m")
        case True
        then show ?thesis
          using stored_row_update[OF upd(1,2)] mbx by (simp add: write_applies_def)
      next
        case False
        with key r have "msg_id r \<noteq> msg_id m" by blast
        with False show ?thesis by (simp add: write_applies_def)
      qed
    qed
    with upd show ?thesis by (simp add: modseq_inv_def)
  qed
  then show "rows st' = map (\<lambda>r. if r = m then stored_row mb upd sess qa r else r) (rows st)"
    and "modseq_inv mb st'" by simp_all
qed

lemma store_loop_rows:
  assumes "store_loop mb upd sess qa st msgs = Inr st'"
    and "modseq_inv mb st"
    and "distinct (map msg_id msgs)"
    and "\<forall>m\<in>set msgs. \<forall>r\<in>set (rows st). msg_id r = msg_id m \<longrightarrow> r = m"
    and "\<forall>m\<in>set msgs. msg_mailbox m = mb_id mb"
  shows "rows st' = map (\<lambda>r. if r \<in> set msgs then stored_row mb upd sess qa r else r) (rows st)
         \<and> modseq_inv mb st'"
  using assms
proof (induction msgs arbitrary: st)
  case Nil
  then show ?case by simp
next
  case (Cons m ms)
  from Cons.prems(1) obtain st1 where
    pm: "process_message mb upd sess qa st m = Inr st1" and
    rest: "store_loop mb upd sess qa st1 ms = Inr st'"
    by (auto split: sum.splits)
  have key: "\<forall>r\<in>set (rows st). msg_id r = msg_id m \<longrightarrow> r = m"
    using Cons.prems(4) by simp
  have mbx: "msg_mailbox m = mb_id mb" using Cons.prems(5) by simp
  note step = process_message_rows[OF pm Cons.prems(2) key mbx]
  have notin: "\<forall>m'\<in>set ms. msg_id m' \<noteq> msg_id m"
    using Cons.prems(3) by (auto simp: image_iff)
  have key1: "\<forall>m'\<in>set ms. \<forall>r\<in>set (rows st1). msg_id r = msg_id m' \<longrightarrow> r = m'"
  proof (intro ballI impI)
    fix m' r1 assume m': "m' \<in> set ms" and r1: "r1 \<in> set (rows st1)" and eq: "msg_id r1 = msg_id m'"
    from r1 step(1) obtain r where r: "r \<in> set (rows st)"
      and r1_def: "r1 = (if r = m then stored_row mb upd sess qa r else r)" by auto
    have "msg_id r = msg_id m'" using eq r1_def by (simp split: if_splits)
    then have "r = m'" using Cons.prems(4) m' r by simp
    moreover have "r \<noteq> m" using notin m' \<open>r = m'\<close> by auto
    ultimately show "r1 = m'" using r1_def by simp
  qed
  have IH: "rows st' = map (\<lambda>r. if r \<in> set ms then stored_row mb upd sess qa r else r) (rows st1)
            \<and> modseq_inv mb st'"
    using Cons.IH[OF rest step(2) _ key1] Cons.prems(3,5) by simp
  have "map (\<lambda>r. if r \<in> set ms then stored_row mb upd sess qa r else r) (rows st1)
        = map (\<lambda>r. if r \<in> set (m # ms) then stored_row mb upd sess qa r else r) (rows st)"
    unfolding step(1) map_map
  proof (rule map_cong[OF refl])
    fix r assume "r \<in> set (rows st)"
    show "((\<lambda>r. if r \<in> set ms then stored_row mb upd sess qa r else r) \<circ>
           (\<lambda>r. if r = m then stored_row mb upd sess qa r else r)) r
          = (if r \<in> set (m # ms) then stored_row mb upd sess qa r else r)"
    proof (cases "r = m")
      case True
      have "stored_row mb upd sess qa m \<notin> set ms"
        using notin msg_id_stored_row by metis
      with True show ?thesis by simp
    next
      case False
      then show ?thesis by simp
    qed
  qed
  with IH show ?case by simp
qed

lemma process_message_outputs:
  assumes pm: "process_message mb upd sess qa st m = Inr st'" and inv: "modseq_inv mb st"
  shows "loop_outputs mb upd sess qa st [m] st'"
proof -
  have nm: "get_modseq (newModseq st) mb = next_modseq mb"
    using inv by (rule get_modseq_inv)
  from process_message_cases[OF pm] show ?thesis
  proof (elim disjE conjE exE)
    assume "\<not> yields_update mb upd sess qa m" "\<not> guard_skipped upd sess qa m" "st' = st"
    then show ?thesis by (simp add: loop_outputs_def)
  next
    assume "\<not> yields_update mb upd sess qa m" "guard_skipped upd sess qa m"
      "st' = st\<lparr>modified := modified st @ [uid m]\<rparr>"
    then show ?thesis by (simp add: loop_outputs_def)
  next
    fix f' s
    assume y: "yields_update mb upd sess qa m"
      and a: "apply_action mb upd (flags m) = Inr (f', True, s)"
      and st': "st' = st\<lparr>rows := update_Messages m mb (get_modseq (newModseq st) mb)
                                  (s\<lparr>set_modseq := Some (get_modseq (newModseq st) mb)\<rparr>) (rows st),
                        writeStream :=
                          (if silent upd \<and> \<not> condstoreEnabled sess then writeStream st
                           else writeStream st @
                             [fetch_response_of upd sess m f' (get_modseq (newModseq st) mb)]),
                        entries := entries st @
                          [change_entry_of sess m f' (get_modseq (newModseq st) mb)],
                        newModseq := Some (get_modseq (newModseq st) mb)\<rparr>"
    have "\<not> guard_skipped upd sess qa m"
      using y by (simp add: guard_skipped_def yields_update_def)
    moreover have "new_flags mb upd m = f'" using a by (simp add: new_flags_def)
    ultimately show ?thesis using y unfolding st' nm by (simp add: loop_outputs_def)
  qed
qed

lemma loop_outputs_trans:
  assumes "loop_outputs mb upd sess qa st [m] st1" and "loop_outputs mb upd sess qa st1 ms st'"
  shows "loop_outputs mb upd sess qa st (m # ms) st'"
  using assms unfolding loop_outputs_def Let_def
  by (auto split: if_splits)

lemma store_loop_outputs:
  assumes "store_loop mb upd sess qa st msgs = Inr st'" and "modseq_inv mb st"
  shows "loop_outputs mb upd sess qa st msgs st'"
  using assms
proof (induction msgs arbitrary: st)
  case Nil
  then show ?case by (simp add: loop_outputs_def)
next
  case (Cons m ms)
  from Cons.prems(1) obtain st1 where
    pm: "process_message mb upd sess qa st m = Inr st1" and
    rest: "store_loop mb upd sess qa st1 ms = Inr st'"
    by (auto split: sum.splits)
  have one: "loop_outputs mb upd sess qa st [m] st1"
    using pm Cons.prems(2) by (rule process_message_outputs)
  have "modseq_inv mb st1"
    using one Cons.prems(2) by (auto simp: loop_outputs_def modseq_inv_def Let_def split: if_splits)
  then have "loop_outputs mb upd sess qa st1 ms st'"
    using Cons.IH rest by blast
  with one show ?case by (rule loop_outputs_trans)
qed

lemma process_message_total:
  assumes "\<forall>a. action upd \<noteq> ActOther a"
  shows "\<exists>st'. process_message mb upd sess qa st m = Inr st'"
  using assms
  by (cases "action upd") (simp_all add: process_message_def apply_action_def Let_def split: prod.splits)

lemma store_loop_total:
  assumes "\<forall>a. action upd \<noteq> ActOther a"
  shows "\<exists>st'. store_loop mb upd sess qa st msgs = Inr st'"
proof (induction msgs arbitrary: st)
  case Nil
  show ?case by simp
next
  case (Cons m ms)
  from process_message_total[OF assms] obtain st1 where
    "process_message mb upd sess qa st m = Inr st1" by blast
  with Cons.IH[of st1] show ?case by simp
qed

subsection \<open>The vocabulary check\<close>

lemma find_new_flags_char:
  "find_new_flags mf nf vs =
     (if \<exists>i<length vs. 100 \<le> length mf + length nf +
                            length (filter (\<lambda>f. getFlag f \<notin> set mf) (take i vs))
      then Inl MailboxFlagsExceeds100
      else Inr (nf @ filter (\<lambda>f. getFlag f \<notin> set mf) vs))"
proof (induction vs arbitrary: nf)
  case Nil
  show ?case by simp
next
  case (Cons v vs)
  let ?new = "\<lambda>f. getFlag f \<notin> set mf"
  let ?P = "\<lambda>nf vs i. 100 \<le> length mf + length nf + length (filter ?new (take i vs))"
  have split: "(\<exists>i<length (v # vs). ?P nf (v # vs) i)
      \<longleftrightarrow> ?P nf (v # vs) 0 \<or> (\<exists>i<length vs. ?P nf (v # vs) (Suc i))"
    by (auto simp: less_Suc_eq_0_disj)
  show ?case
  proof (cases "100 \<le> length mf + length nf")
    case True
    then have "\<exists>i<length (v # vs). ?P nf (v # vs) i" by (intro exI[of _ 0]) simp
    with True show ?thesis by simp
  next
    case False
    let ?nf' = "if getFlag v \<in> set mf then nf else nf @ [v]"
    have step: "find_new_flags mf nf (v # vs) = find_new_flags mf ?nf' vs"
      using False by simp
    have shift: "\<And>i. ?P nf (v # vs) (Suc i) \<longleftrightarrow> ?P ?nf' vs i" by simp
    have "(\<exists>i<length (v # vs). ?P nf (v # vs) i) \<longleftrightarrow> (\<exists>i<length vs. ?P ?nf' vs i)"
      unfolding split shift using False by simp
    moreover have "nf @ filter ?new (v # vs) = ?nf' @ filter ?new vs" by simp
    ultimately show ?thesis unfolding step Cons.IH[of ?nf'] by presburger
  qed
qed

lemma mailbox_newFlags_char:
  assumes "action upd \<noteq> ActRemove"
  shows "mailbox_newFlags sysFlags mb upd =
           (if capacity_exceeded sysFlags mb upd then Inl MailboxFlagsExceeds100
            else Inr (filter (is_new_flag sysFlags mb) (upd_value upd)))"
proof -
  have new: "(\<lambda>f. getFlag f \<notin> set (map getFlag (sysFlags @ mb_flags mb))) = is_new_flag sysFlags mb"
    by (simp add: is_new_flag_def fun_eq_iff)
  have "capacity_exceeded sysFlags mb upd \<longleftrightarrow>
        (\<exists>i<length (upd_value upd). 100 \<le> length (map getFlag (sysFlags @ mb_flags mb)) + length ([]::string list) +
            length (filter (is_new_flag sysFlags mb) (take i (upd_value upd))))"
    by (auto simp: capacity_exceeded_def list_ex_iff)
  then show ?thesis
    using assms unfolding mailbox_newFlags_def find_new_flags_char new by simp
qed

subsection \<open>The transaction and the handler\<close>

lemma transaction_body_char:
  assumes "transaction_body sysFlags d mb upd sess qa msgs = Inr (d', st)"
  shows "\<exists>nf. store_loop mb upd sess qa (init_state d) msgs = Inr st \<and>
              mailbox_newFlags sysFlags mb upd = Inr nf \<and>
              Messages d' = rows st \<and>
              Mailboxes d' = (if truthy (newModseq st) \<or> nf \<noteq> []
                              then update_Mailboxes mb (newModseq st) nf (Mailboxes d)
                              else Mailboxes d)"
  using assms unfolding transaction_body_def
  by (auto split: sum.splits)

lemma process_message_error:
  assumes "process_message mb upd sess qa st m = Inl e"
  shows "e = UnknownAction"
  using assms
  by (cases "action upd")
     (simp_all add: process_message_def apply_action_def Let_def split: prod.splits if_splits)

lemma store_loop_error:
  assumes "store_loop mb upd sess qa st msgs = Inl e"
  shows "e = UnknownAction"
  using assms
proof (induction msgs arbitrary: st)
  case Nil
  then show ?case by simp
next
  case (Cons m ms)
  then show ?case
    by (cases "process_message mb upd sess qa st m") (auto dest: process_message_error)
qed

lemma transaction_body_error:
  assumes "transaction_body sysFlags d mb upd sess qa msgs = Inl err"
  shows "(\<exists>a. action upd = ActOther a) \<and> err = UnknownAction \<or>
         action upd \<noteq> ActRemove \<and> capacity_exceeded sysFlags mb upd \<and> err = MailboxFlagsExceeds100"
proof (cases "store_loop mb upd sess qa (init_state d) msgs")
  case (Inl e)
  then have other: "\<exists>a. action upd = ActOther a"
    using store_loop_total[of upd mb sess qa "init_state d" msgs] by auto
  have "e = UnknownAction"
    using Inl by (rule store_loop_error)
  moreover have "err = e"
    using assms Inl unfolding transaction_body_def by simp
  ultimately show ?thesis using other by simp
next
  case (Inr st)
  with assms have nf: "mailbox_newFlags sysFlags mb upd = Inl err"
    unfolding transaction_body_def by (simp split: sum.splits)
  then have nr: "action upd \<noteq> ActRemove"
    by (auto simp: mailbox_newFlags_def)
  from nf show ?thesis
    unfolding mailbox_newFlags_char[OF nr] using nr by (simp split: if_splits)
qed

lemma modseq_inv_init [simp]: "modseq_inv mb (init_state d)"
  by (simp add: modseq_inv_def init_state_def)

lemma outer_catch_not_Success [simp]:
  "outer_catch err \<noteq> Success md ws" "Success md ws \<noteq> outer_catch err"
  by (simp_all add: outer_catch_def split: error.splits)

lemma onStore_cases:
  assumes "onStore e w mailboxId upd sess = (w', out)"
  obtains
    (early) "db w' = db w" "notified w' = notified w" "\<forall>md ws. out \<noteq> Success md ws"
      "refreshSession_throws e \<or> acquireLock_throws e \<or> findOne_throws e \<or>
       findOne (db w) mailboxId = None \<or> query_throws e"
  | (empty) mb where "findOne (db w) mailboxId = Some mb"
      "select_Messages e (db w) mb upd (is_queryAll upd sess) = []"
      "w' = w\<lparr>lock_held := releaseLock_throws e\<rparr>" "out = Success [] []"
  | (rolled_back) mb err where "findOne (db w) mailboxId = Some mb"
      "select_Messages e (db w) mb upd (is_queryAll upd sess) \<noteq> []"
      "transaction_body (systemFlags e) (db w) mb upd sess (is_queryAll upd sess)
         (select_Messages e (db w) mb upd (is_queryAll upd sess)) = Inl err"
      "w' = w\<lparr>lock_held := releaseLock_throws e\<rparr>" "out = outer_catch err"
  | (committed) mb st where "findOne (db w) mailboxId = Some mb"
      "select_Messages e (db w) mb upd (is_queryAll upd sess) \<noteq> []"
      "transaction_body (systemFlags e) (db w) mb upd sess (is_queryAll upd sess)
         (select_Messages e (db w) mb upd (is_queryAll upd sess)) = Inr (db w', st)"
      "lock_held w' = releaseLock_throws e"
      "notified w' = (if entries st = [] \<or> addEntries_throws e then notified w
                      else notified w @ [entries st])"
      "out = (if entries st \<noteq> [] \<and> addEntries_throws e
              then Failed (CollaboratorError ''addEntries'')
              else Success (modified st) (writeStream st))"
proof (cases "refreshSession_throws e \<or> acquireLock_throws e \<or> findOne_throws e \<or>
              findOne (db w) mailboxId = None \<or> query_throws e")
  case True
  with assms have "db w' = db w \<and> notified w' = notified w \<and> (\<forall>md ws. out \<noteq> Success md ws)"
    unfolding onStore_def by (auto simp: Let_def outer_catch_def split: if_splits option.splits)
  with early True show ?thesis by blast
next
  case False
  then obtain mb where mb: "findOne (db w) mailboxId = Some mb" by auto
  let ?qa = "is_queryAll upd sess"
  let ?msgs = "select_Messages e (db w) mb upd ?qa"
  from False have ok: "\<not> refreshSession_throws e" "\<not> acquireLock_throws e"
    "\<not> findOne_throws e" "\<not> query_throws e" by simp_all
  show ?thesis
  proof (cases "?msgs = []")
    case True
    with assms ok mb have "w' = w\<lparr>lock_held := releaseLock_throws e\<rparr>" "out = Success [] []"
      unfolding onStore_def by (auto simp: Let_def run_transaction_def init_state_def)
    with mb True empty show ?thesis by blast
  next
    case ne: False
    show ?thesis
    proof (cases "transaction_body (systemFlags e) (db w) mb upd sess ?qa ?msgs")
      case (Inl err)
      with assms ok mb ne have "w' = w\<lparr>lock_held := releaseLock_throws e\<rparr>" "out = outer_catch err"
        unfolding onStore_def by (auto simp: Let_def run_transaction_def)
      with mb ne Inl rolled_back show ?thesis by blast
    next
      case (Inr t)
      obtain d' st where t: "t = (d', st)" by (cases t)
      from assms ok mb ne Inr t have "db w' = d'" "lock_held w' = releaseLock_throws e"
        "notified w' = (if entries st = [] \<or> addEntries_throws e then notified w
                      else notified w @ [entries st])"
        "out = (if entries st \<noteq> [] \<and> addEntries_throws e
              then Failed (CollaboratorError ''addEntries'')
              else Success (modified st) (writeStream st))"
        unfolding onStore_def
        by (auto simp: Let_def run_transaction_def outer_catch_def split: if_splits)
      with mb ne Inr t committed show ?thesis by blast
    qed
  qed
qed

subsection \<open>The candidate rows\<close>

lemma set_select_Messages:
  "set (select_Messages e d mb upd qa) = {r \<in> set (Messages d). is_candidate e mb upd qa r}"
  by (simp add: select_Messages_def is_candidate_def)

lemma distinct_select_Messages:
  assumes "distinct (map msg_id (Messages d))"
  shows "distinct (map msg_id (select_Messages e d mb upd qa))"
proof -
  from assms have d: "distinct (Messages d)" and inj: "inj_on msg_id (set (Messages d))"
    by (simp_all add: distinct_map)
  have "inj_on msg_id (set (select_Messages e d mb upd qa))"
    using inj by (rule inj_on_subset) (auto simp: set_select_Messages)
  moreover have "distinct (select_Messages e d mb upd qa)"
    using d by (simp add: select_Messages_def)
  ultimately show ?thesis by (simp add: distinct_map)
qed

lemma select_Messages_key:
  assumes "distinct (map msg_id (Messages d))"
  shows "\<forall>m\<in>set (select_Messages e d mb upd qa). \<forall>r\<in>set (Messages d). msg_id r = msg_id m \<longrightarrow> r = m"
proof (intro ballI impI)
  fix m r assume "m \<in> set (select_Messages e d mb upd qa)" "r \<in> set (Messages d)"
    "msg_id r = msg_id m"
  moreover from assms have "inj_on msg_id (set (Messages d))" by (simp add: distinct_map)
  ultimately show "r = m" by (auto simp: set_select_Messages dest: inj_onD)
qed

lemma committed_rows:
  assumes tb: "transaction_body sysFlags d mb upd sess qa (select_Messages e d mb upd qa) = Inr (d', st)"
    and dist: "distinct (map msg_id (Messages d))"
  shows "Messages d' =
           map (\<lambda>r. if is_candidate e mb upd qa r then stored_row mb upd sess qa r else r) (Messages d)"
proof -
  let ?msgs = "select_Messages e d mb upd qa"
  from transaction_body_char[OF tb] have loop: "store_loop mb upd sess qa (init_state d) ?msgs = Inr st"
    and rows: "Messages d' = rows st" by auto
  have key: "\<forall>m\<in>set ?msgs. \<forall>r\<in>set (rows (init_state d)). msg_id r = msg_id m \<longrightarrow> r = m"
    using select_Messages_key[OF dist] by (simp add: init_state_def)
  have mbx: "\<forall>m\<in>set ?msgs. msg_mailbox m = mb_id mb"
    by (simp add: set_select_Messages is_candidate_def)
  from store_loop_rows[OF loop modseq_inv_init distinct_select_Messages[OF dist] key mbx]
  have "rows st = map (\<lambda>r. if r \<in> set ?msgs then stored_row mb upd sess qa r else r) (Messages d)"
    by (simp add: init_state_def)
  also have "\<dots> = map (\<lambda>r. if is_candidate e mb upd qa r then stored_row mb upd sess qa r else r) (Messages d)"
    by (rule map_cong) (simp_all add: set_select_Messages)
  finally show ?thesis using rows by simp
qed

lemma committed_outputs:
  assumes tb: "transaction_body sysFlags d mb upd sess qa msgs = Inr (d', st)"
  shows "loop_outputs mb upd sess qa (init_state d) msgs st"
  using transaction_body_char[OF tb] store_loop_outputs[OF _ modseq_inv_init] by blast

lemma stored_row_derived:
  assumes "derived_ok r"
  shows "derived_ok (stored_row mb upd sess qa r)"
proof (cases "apply_action mb upd (flags r)")
  case (Inl e)
  with assms show ?thesis by (simp add: stored_row_def)
next
  case (Inr t)
  obtain f' u s where t: "t = (f', u, s)" by (cases t)
  show ?thesis
  proof (cases u)
    case True
    with Inr t assms apply_action_derived[of mb upd r f' s "next_modseq mb"]
    show ?thesis by (simp add: stored_row_def)
  next
    case False
    with Inr t assms show ?thesis by (simp add: stored_row_def)
  qed
qed

lemma modseq_apply_modifier [simp]:
  "modseq (apply_modifier (s\<lparr>set_modseq := Some nm\<rparr>) r) = nm"
  by (simp add: apply_modifier_def)

lemma stored_row_modseq:
  "stored_row mb upd sess qa r = r \<or> modseq (stored_row mb upd sess qa r) = next_modseq mb"
  by (simp add: stored_row_def split: sum.splits prod.splits)

lemma store_loop_no_update:
  assumes "store_loop mb upd sess qa st msgs = Inr st'"
    and "\<forall>m\<in>set msgs. \<not> yields_update mb upd sess qa m"
  shows "rows st' = rows st \<and> entries st' = entries st \<and> writeStream st' = writeStream st \<and>
         newModseq st' = newModseq st"
  using assms
proof (induction msgs arbitrary: st)
  case Nil
  then show ?case by simp
next
  case (Cons m ms)
  from Cons.prems(1) obtain st1 where
    pm: "process_message mb upd sess qa st m = Inr st1" and
    rest: "store_loop mb upd sess qa st1 ms = Inr st'"
    by (auto split: sum.splits)
  from process_message_cases[OF pm] Cons.prems(2)
  have "rows st1 = rows st \<and> entries st1 = entries st \<and> writeStream st1 = writeStream st \<and>
        newModseq st1 = newModseq st" by auto
  moreover have "rows st' = rows st1 \<and> entries st' = entries st1 \<and>
        writeStream st' = writeStream st1 \<and> newModseq st' = newModseq st1"
    using Cons.IH[OF rest] Cons.prems(2) by simp
  ultimately show ?case by simp
qed

subsection \<open>Every written row carries the new number\<close>

lemma process_message_stamped:
  assumes pm: "process_message mb upd sess qa st m = Inr st'" and inv: "modseq_inv mb st"
  shows "list_all2 (same_or_stamped (next_modseq mb)) (rows st) (rows st')"
proof -
  have nm: "get_modseq (newModseq st) mb = next_modseq mb"
    using inv by (rule get_modseq_inv)
  from process_message_cases[OF pm]
  have "rows st' = rows st \<or>
        (\<exists>s. rows st' = update_Messages m mb (next_modseq mb)
                          (s\<lparr>set_modseq := Some (next_modseq mb)\<rparr>) (rows st))"
    unfolding nm by auto
  then show ?thesis
  proof (elim disjE exE)
    assume "rows st' = rows st"
    then show ?thesis by (simp add: list_all2_same same_or_stamped_def)
  next
    fix s assume "rows st' = update_Messages m mb (next_modseq mb)
                          (s\<lparr>set_modseq := Some (next_modseq mb)\<rparr>) (rows st)"
    then show ?thesis
      by (simp add: update_Messages_def list_all2_map2 list_all2_same same_or_stamped_def)
  qed
qed

lemma store_loop_stamped:
  assumes "store_loop mb upd sess qa st msgs = Inr st'" and "modseq_inv mb st"
  shows "list_all2 (same_or_stamped (next_modseq mb)) (rows st) (rows st')"
  using assms
proof (induction msgs arbitrary: st)
  case Nil
  then show ?case by (simp add: list_all2_same same_or_stamped_def)
next
  case (Cons m ms)
  from Cons.prems(1) obtain st1 where
    pm: "process_message mb upd sess qa st m = Inr st1" and
    rest: "store_loop mb upd sess qa st1 ms = Inr st'"
    by (auto split: sum.splits)
  have one: "list_all2 (same_or_stamped (next_modseq mb)) (rows st) (rows st1)"
    using pm Cons.prems(2) by (rule process_message_stamped)
  have "modseq_inv mb st1"
    using process_message_outputs[OF pm Cons.prems(2)] Cons.prems(2)
    by (auto simp: loop_outputs_def modseq_inv_def Let_def split: if_splits)
  then have two: "list_all2 (same_or_stamped (next_modseq mb)) (rows st1) (rows st')"
    using Cons.IH rest by blast
  show ?case
    by (rule list_all2_trans[OF _ one two]) (auto simp: same_or_stamped_def)
qed

subsection \<open>The mailbox row after the update\<close>

lemma findOne_mb_id: "findOne d mailboxId = Some mb \<Longrightarrow> mb_id mb = mailboxId"
  by (auto simp: findOne_def find_Some_iff)

lemma find_map_same:
  assumes "\<And>x. P (f x) = P x"
  shows "find P (map f xs) = map_option f (find P xs)"
  using assms by (induction xs) simp_all

lemma findOne_update_Mailboxes:
  assumes "findOne d mailboxId = Some mb"
  shows "find (\<lambda>m. mb_id m = mailboxId) (update_Mailboxes mb nm nf (Mailboxes d)) =
           Some (mb\<lparr>modifyIndex := (case nm of None \<Rightarrow> modifyIndex mb
                                      | Some n \<Rightarrow> if n \<noteq> 0 then n else modifyIndex mb),
                    mb_flags := (if nf = [] then mb_flags mb else dedup (mb_flags mb @ nf))\<rparr>)"
proof -
  let ?f = "\<lambda>r. if mb_id r = mb_id mb
              then r\<lparr>modifyIndex := (case nm of None \<Rightarrow> modifyIndex r
                                      | Some n \<Rightarrow> if n \<noteq> 0 then n else modifyIndex r),
                     mb_flags := (if nf = [] then mb_flags r else dedup (mb_flags mb @ nf))\<rparr>
              else r"
  have "find (\<lambda>m. mb_id m = mailboxId) (map ?f (Mailboxes d))
          = map_option ?f (find (\<lambda>m. mb_id m = mailboxId) (Mailboxes d))"
    by (rule find_map_same) simp
  then show ?thesis
    using assms findOne_mb_id[OF assms] by (simp add: update_Mailboxes_def findOne_def)
qed

subsection \<open>Facts about the concrete inputs\<close>

text \<open>The equations that evaluate the model on a concrete input.\<close>

lemmas model_defs =
  onStore_def outer_catch_def findOne_def is_queryAll_def select_Messages_def run_transaction_def
  transaction_body_def init_state_def process_message_def skip_queryAll_def
  skip_unchangedSince_def apply_action_def store_add_def store_set_def store_remove_def
  getFlag_def trim_def toLowerCase_def toLowerCase_char_def isSpace_def dedup_def empty_set_def
  get_modseq_def next_modseq_def js_plus_def double_round_def update_Messages_def write_applies_def apply_modifier_def fetch_response_of_def
  change_entry_of_def mailbox_newFlags_def update_Mailboxes_def truthy_def Let_def

lemmas input_defs = env0_def mbox_def msg_def world_of_def world0_def sess0_def cmd_def

lemma length_custom95: "length custom95 = 95"
  by (simp add: custom95_def)

lemma length_fresh100: "length fresh100 = 100"
  by (simp add: fresh100_def)

lemma getFlag_fresh: "getFlag (CHR ''n'' # replicate n CHR ''x'') = CHR ''n'' # replicate n CHR ''x''"
proof -
  have sp: "\<not> isSpace CHR ''x''" "\<not> isSpace CHR ''n''" by (simp_all add: isSpace_def)
  have "dropWhile isSpace (replicate n CHR ''x'' @ [CHR ''n'']) = replicate n CHR ''x'' @ [CHR ''n'']"
    using sp by (cases n) simp_all
  then have "trim (CHR ''n'' # replicate n CHR ''x'') = CHR ''n'' # replicate n CHR ''x''"
    using sp by (simp add: trim_def)
  moreover have "toLowerCase (CHR ''n'' # replicate n CHR ''x'') = CHR ''n'' # replicate n CHR ''x''"
    by (simp add: toLowerCase_def toLowerCase_char_def)
  ultimately show ?thesis by (simp add: getFlag_def)
qed

lemma fresh100_all_new: "filter (is_new_flag (systemFlags env0) (mbox [] None)) fresh100 = fresh100"
proof -
  have "is_new_flag (systemFlags env0) (mbox [] None) f" if "f \<in> set fresh100" for f
  proof -
    from that obtain n where f: "f = CHR ''n'' # replicate n CHR ''x''"
      by (auto simp: fresh100_def)
    show ?thesis
      unfolding f is_new_flag_def getFlag_fresh
      by (simp add: env0_def mbox_def getFlag_def trim_def toLowerCase_def toLowerCase_char_def
          isSpace_def)
  qed
  then show ?thesis by (simp add: filter_id_conv)
qed

text \<open>
  At the edge of the exact range the new modification sequence number is the old one:
  with \<^verbatim>\<open>modifyIndex\<close> and the row's modseq at \<open>2 ^ 53\<close> the \<^verbatim>\<open>UPDATE\<close> statement
  matches no row, while the response and the notifier entry are produced. The claims
  about the new number are stated for counters inside the exact range.
\<close>

lemma counter_at_the_edge:
  "onStore env0 (world_of [msg 10 1 [] (2 ^ 53)] ((mbox [] None)\<lparr>modifyIndex := 2 ^ 53\<rparr>)) 1
       (cmd ActAdd [Seen] [1] None) sess0
     = ((world_of [msg 10 1 [] (2 ^ 53)] ((mbox [] None)\<lparr>modifyIndex := 2 ^ 53\<rparr>))
          \<lparr>notified := [[\<lparr>ce_ignore = ''s1'', ce_uid = 1, ce_flags = [Seen], ce_message = 10,
                           ce_modseq = 2 ^ 53\<rparr>]]\<rparr>,
        Success [] [\<lparr>fr_uid = 1, fr_attr_uid = Some 1, fr_flags = [Seen],
                     fr_modseq = Some (2 ^ 53)\<rparr>])"
  by (simp add: model_defs input_defs bit_length_edge)

subsection \<open>Adding the same flags again\<close>

lemma store_add_again: "\<not> fst (snd (store_add val (fst (store_add val flgs))))"
proof -
  let ?new = "filter (\<lambda>f. getFlag f \<notin> set (map getFlag flgs)) val"
  have "filter (\<lambda>f. getFlag f \<notin> set (map getFlag (dedup (flgs @ ?new)))) val = []"
    by (auto simp: filter_empty_conv)
  then show ?thesis by (simp add: store_add_def Let_def)
qed

lemma uid_apply_modifier [simp]: "uid (apply_modifier s r) = uid r"
  by (simp add: apply_modifier_def)

lemma msg_mailbox_apply_modifier [simp]: "msg_mailbox (apply_modifier s r) = msg_mailbox r"
  by (simp add: apply_modifier_def)

lemma uid_stored_row [simp]: "uid (stored_row mb upd sess qa r) = uid r"
  by (simp add: stored_row_def split: sum.splits prod.splits)

lemma msg_mailbox_stored_row [simp]: "msg_mailbox (stored_row mb upd sess qa r) = msg_mailbox r"
  by (simp add: stored_row_def split: sum.splits prod.splits)

lemma is_candidate_stored_row [simp]:
  "is_candidate e mb' upd qa (stored_row mb upd sess qa' r) = is_candidate e mb' upd qa r"
  by (simp add: is_candidate_def)

lemma add_idempotent_row:
  assumes act: "action upd = ActAdd" and old: "modseq r < next_modseq mb"
  shows "\<not> yields_update mb' upd sess qa (stored_row mb upd sess qa r)"
proof (cases "skip_queryAll qa sess r \<or> skip_unchangedSince upd r")
  case True
  then have "stored_row mb upd sess qa r = r" by (simp add: stored_row_def)
  with True show ?thesis by (auto simp: yields_update_def)
next
  case False
  have a: "\<And>m flgs. apply_action m upd flgs = Inr (store_add (upd_value upd) flgs)"
    using act by (simp add: apply_action_def)
  obtain f' u s where sa: "store_add (upd_value upd) (flags r) = (f', u, s)"
    by (cases "store_add (upd_value upd) (flags r)")
  show ?thesis
  proof (cases u)
    case True
    with sa have s: "set_flags s = Some f'"
      by (auto simp: store_add_def Let_def empty_set_def split: if_splits)
    have "stored_row mb upd sess qa r = apply_modifier (s\<lparr>set_modseq := Some (next_modseq mb)\<rparr>) r"
      using False True sa old by (simp add: stored_row_def a)
    then have "flags (stored_row mb upd sess qa r) = fst (store_add (upd_value upd) (flags r))"
      using s sa by (simp add: apply_modifier_def)
    then show ?thesis
      using store_add_again[of "upd_value upd" "flags r"]
      by (auto simp: yields_update_def a split: prod.splits)
  next
    case u: False
    then have "stored_row mb upd sess qa r = r"
      using False sa by (simp add: stored_row_def a)
    with u sa show ?thesis by (simp add: yields_update_def a)
  qed
qed

lemma is_new_flag_after:
  assumes "set (mb_flags mb1) = set (mb_flags mb) \<union> set (filter (is_new_flag sysFlags mb) val)"
  shows "filter (is_new_flag sysFlags mb1) val = []"
proof -
  have "\<not> is_new_flag sysFlags mb1 f" if "f \<in> set val" for f
  proof (cases "is_new_flag sysFlags mb f")
    case True
    with that have "f \<in> set (mb_flags mb1)" using assms by simp
    then show ?thesis by (auto simp: is_new_flag_def)
  next
    case False
    then show ?thesis using assms by (auto simp: is_new_flag_def)
  qed
  then show ?thesis by (simp add: filter_empty_conv)
qed

lemma is_candidate_mb_id:
  "mb_id mb1 = mb_id mb \<Longrightarrow> is_candidate e mb1 upd qa r = is_candidate e mb upd qa r"
  by (simp add: is_candidate_def)

lemma database_eqI:
  "Messages d = Messages d' \<Longrightarrow> Mailboxes d = Mailboxes d' \<Longrightarrow> d = (d'::database)"
  by simp

text \<open>
  What a committed add leaves behind: no row the same command would select yields an
  update again, and no input flag is new to the mailbox row.
\<close>

lemma add_committed_settled:
  assumes act: "action upd = ActAdd"
    and mb: "findOne d mailboxId = Some mb"
    and tb: "transaction_body sysFlags d mb upd sess qa (select_Messages e d mb upd qa) = Inr (d', st)"
    and dist: "distinct (map msg_id (Messages d))"
    and inv: "\<forall>r\<in>set (Messages d). msg_mailbox r = mb_id mb \<longrightarrow> modseq r \<le> modifyIndex mb"
    and bound: "\<bar>modifyIndex mb\<bar> < 2 ^ 53"
    and mb1: "findOne d' mailboxId = Some mb1"
  shows "\<forall>m\<in>set (select_Messages e d' mb1 upd qa). \<not> yields_update mb1 upd sess qa m"
    and "filter (is_new_flag sysFlags mb1) (upd_value upd) = []"
proof -
  let ?nf = "filter (is_new_flag sysFlags mb) (upd_value upd)"
  from act have nr: "action upd \<noteq> ActRemove" by simp
  from transaction_body_char[OF tb] obtain nf where
    nf: "mailbox_newFlags sysFlags mb upd = Inr nf" and
    mbs: "Mailboxes d' = (if truthy (newModseq st) \<or> nf \<noteq> []
             then update_Mailboxes mb (newModseq st) nf (Mailboxes d)
             else Mailboxes d)"
    by auto
  from nf have nf_eq: "nf = ?nf"
    unfolding mailbox_newFlags_char[OF nr] by (simp split: if_splits)
  have id1: "mb_id mb1 = mb_id mb"
    using findOne_mb_id[OF mb] findOne_mb_id[OF mb1] by simp
  have "set (mb_flags mb1) = set (mb_flags mb) \<union> set nf"
  proof (cases "truthy (newModseq st) \<or> nf \<noteq> []")
    case True
    with mbs have "Mailboxes d' = update_Mailboxes mb (newModseq st) nf (Mailboxes d)" by simp
    with findOne_update_Mailboxes[OF mb, of "newModseq st" nf] mb1
    have "mb_flags mb1 = (if nf = [] then mb_flags mb else dedup (mb_flags mb @ nf))"
      by (auto simp: findOne_def)
    then show ?thesis by (cases "nf = []") simp_all
  next
    case False
    with mbs mb mb1 have "mb1 = mb" by (simp add: findOne_def)
    with False show ?thesis by simp
  qed
  then have flags1: "set (mb_flags mb1) = set (mb_flags mb) \<union> set ?nf"
    unfolding nf_eq .
  from flags1 show "filter (is_new_flag sysFlags mb1) (upd_value upd) = []"
    by (rule is_new_flag_after)
  show "\<forall>m\<in>set (select_Messages e d' mb1 upd qa). \<not> yields_update mb1 upd sess qa m"
  proof
    fix m assume "m \<in> set (select_Messages e d' mb1 upd qa)"
    then have m: "m \<in> set (Messages d')" and c: "is_candidate e mb upd qa m"
      by (simp_all add: set_select_Messages is_candidate_mb_id[OF id1])
    from m committed_rows[OF tb dist] obtain r where r: "r \<in> set (Messages d)"
      and mr: "m = (if is_candidate e mb upd qa r then stored_row mb upd sess qa r else r)"
      by auto
    from c mr have cr: "is_candidate e mb upd qa r" by (simp split: if_splits)
    with mr have ms: "m = stored_row mb upd sess qa r" by simp
    from cr r inv have "modseq r < next_modseq mb"
      unfolding next_modseq_safe[OF bound] by (auto simp: is_candidate_def)
    with act show "\<not> yields_update mb1 upd sess qa m"
      unfolding ms by (rule add_idempotent_row)
  qed
qed

section \<open>The claims\<close>

subsection \<open>The derived booleans\<close>

text \<open>
  Claim C1. A \<^verbatim>\<open>Messages\<close> row whose four derived booleans agree with its flag list
  before a STORE command has booleans that agree with its flag list after it, whatever
  the action and whether the row is written or not, for every row of the table (rows at
  the same position are the same message). The ids of the table are distinct
  (\<^verbatim>\<open>_id\<close> is its key). Presence of a flag is that of the exact name, as
  \<^verbatim>\<open>includes\<close> tests it.
\<close>

theorem C1_derived_booleans:
  assumes run: "onStore e w mailboxId upd sess = (w', out)"
    and dist: "distinct (map msg_id (Messages (db w)))"
  shows "list_all2 (\<lambda>r r'. derived_ok r \<longrightarrow> derived_ok r') (Messages (db w)) (Messages (db w'))"
  using run
proof (cases rule: onStore_cases)
  case (committed mb st)
  from committed_rows[OF committed(3) dist]
  show ?thesis
    by (simp add: list_all2_map2 list_all2_same stored_row_derived)
qed (simp_all add: list_all2_same)

theorem C1_derived_booleans_witness:
  "list_all2 (\<lambda>r r'. derived_ok r \<longrightarrow> derived_ok r') (Messages (db world0))
     (Messages (db (fst (onStore env0 world0 1 (cmd ActAdd [Seen] [1, 2] None) sess0)))) \<and>
   list_all derived_ok (Messages (db world0)) \<and>
   Messages (db (fst (onStore env0 world0 1 (cmd ActAdd [Seen] [1, 2] None) sess0))) =
     [msg 10 1 [Seen] 8, msg 11 2 [Seen] 8, msg 12 3 [] 7]"
proof -
  have d: "distinct (map msg_id (Messages (db world0)))"
    by (simp add: input_defs)
  have ok: "list_all derived_ok (Messages (db world0))"
    by (simp add: input_defs derived_ok_def)
  have res: "Messages (db (fst (onStore env0 world0 1 (cmd ActAdd [Seen] [1, 2] None) sess0))) =
     [msg 10 1 [Seen] 8, msg 11 2 [Seen] 8, msg 12 3 [] 7]"
    by (simp add: model_defs input_defs)
  from C1_derived_booleans[OF surjective_pairing d] ok res show ?thesis by blast
qed

subsection \<open>One modification sequence number per command\<close>

text \<open>
  Claim C2. Let \<open>mb\<close> be the mailbox row the command reads, with a \<^verbatim>\<open>modifyIndex\<close> other than
  \<open>-1\<close> (the counter starts at 0 and grows) and below \<open>2 ^ 53\<close> in absolute value,
  so that adding one to it is exact. After the command every message row
  that differs from the row before carries the modification sequence number
  \<open>modifyIndex mb + 1\<close>, every entry handed to the notifier and every FETCH
  response that reports a number carry that same number and, whenever a message row has
  changed, an entry was handed over or a response was produced, the mailbox row read
  back has \<^verbatim>\<open>modifyIndex\<close> equal to that number.
\<close>

theorem C2_one_modseq:
  assumes run: "onStore e w mailboxId upd sess = (w', out)"
    and mb: "findOne (db w) mailboxId = Some mb"
    and nz: "modifyIndex mb \<noteq> - 1"
    and bound: "\<bar>modifyIndex mb\<bar> < 2 ^ 53"
  shows "list_all2 (same_or_stamped (modifyIndex mb + 1)) (Messages (db w)) (Messages (db w')) \<and>
         (notified w' = notified w \<or>
            (\<exists>es. notified w' = notified w @ [es] \<and>
                  list_all (\<lambda>en. ce_modseq en = modifyIndex mb + 1) es)) \<and>
         (\<forall>md ws. out = Success md ws \<longrightarrow>
            list_all (\<lambda>fr. fr_modseq fr =
                             (if condstoreEnabled sess then Some (modifyIndex mb + 1) else None)) ws) \<and>
         (Messages (db w') \<noteq> Messages (db w) \<or> notified w' \<noteq> notified w \<or>
            (\<exists>md ws. out = Success md ws \<and> ws \<noteq> [])
          \<longrightarrow> map_option modifyIndex (findOne (db w') mailboxId) = Some (modifyIndex mb + 1))"
  using run
proof (cases rule: onStore_cases)
  case early
  then show ?thesis
    by (simp add: list_all2_same same_or_stamped_def)
next
  case (empty mb')
  then show ?thesis by (simp add: list_all2_same same_or_stamped_def)
next
  case (rolled_back mb' err)
  then show ?thesis by (simp add: list_all2_same same_or_stamped_def)
next
  case (committed mb' st)
  let ?qa = "is_queryAll upd sess"
  let ?msgs = "select_Messages e (db w) mb upd ?qa"
  let ?nm = "modifyIndex mb + 1"
  let ?ys = "filter (yields_update mb upd sess ?qa) ?msgs"
  have ns: "next_modseq mb = ?nm" using bound by (rule next_modseq_safe)
  from committed(1) mb have [simp]: "mb' = mb" by simp
  note tb = committed(3)[simplified]
  from transaction_body_char[OF tb] obtain nf where
    loop: "store_loop mb upd sess ?qa (init_state (db w)) ?msgs = Inr st" and
    rows: "Messages (db w') = rows st" and
    mbs: "Mailboxes (db w') = (if truthy (newModseq st) \<or> nf \<noteq> []
             then update_Mailboxes mb (newModseq st) nf (Mailboxes (db w))
             else Mailboxes (db w))"
    by auto
  have out: "loop_outputs mb upd sess ?qa (init_state (db w)) ?msgs st"
    using tb by (rule committed_outputs)
  then have ent: "entries st = map (\<lambda>m. change_entry_of sess m (new_flags mb upd m) ?nm) ?ys"
    and ws: "writeStream st = (if silent upd \<and> \<not> condstoreEnabled sess then []
               else map (\<lambda>m. fetch_response_of upd sess m (new_flags mb upd m) ?nm) ?ys)"
    and nm: "newModseq st = (if ?ys = [] then None else Some ?nm)"
    by (simp_all add: loop_outputs_def Let_def init_state_def ns)
  have stamped: "list_all2 (same_or_stamped ?nm) (Messages (db w)) (Messages (db w'))"
    using store_loop_stamped[OF loop modseq_inv_init] rows by (simp add: init_state_def ns)
  have ent_ok: "list_all (\<lambda>en. ce_modseq en = ?nm) (entries st)"
    unfolding ent by (simp add: list_all_iff change_entry_of_def)
  have ws_ok: "list_all (\<lambda>fr. fr_modseq fr = (if condstoreEnabled sess then Some ?nm else None))
                 (writeStream st)"
    unfolding ws by (simp add: list_all_iff fetch_response_of_def)
  have quiet: "Messages (db w') = Messages (db w) \<and> notified w' = notified w \<and>
      (\<forall>md ws. out = Success md ws \<longrightarrow> ws = [])"
    if "?ys = []"
  proof -
    from that have none: "\<forall>m\<in>set ?msgs. \<not> yields_update mb upd sess ?qa m"
      by (simp add: filter_empty_conv)
    from store_loop_no_update[OF loop none] rows
    have "Messages (db w') = Messages (db w)" by (simp add: init_state_def)
    moreover from that ent have "entries st = []" by simp
    then have "notified w' = notified w" using committed(5) by simp
    moreover from that ws have "writeStream st = []" by simp
    then have "\<forall>md ws. out = Success md ws \<longrightarrow> ws = []"
      using committed(6) by (simp split: if_splits)
    ultimately show ?thesis by blast
  qed
  have bumped: "map_option modifyIndex (findOne (db w') mailboxId) = Some ?nm" if "?ys \<noteq> []"
  proof -
    from that nm have n: "newModseq st = Some ?nm" by simp
    with nz have "truthy (newModseq st)" by (simp add: truthy_def)
    with mbs have "Mailboxes (db w') = update_Mailboxes mb (Some ?nm) nf (Mailboxes (db w))"
      using n by simp
    then show ?thesis
      using findOne_update_Mailboxes[OF mb, of "Some ?nm" nf] nz by (simp add: findOne_def)
  qed
  have a: "notified w' = notified w \<or>
            (\<exists>es. notified w' = notified w @ [es] \<and> list_all (\<lambda>en. ce_modseq en = ?nm) es)"
    using committed(5) ent_ok by auto
  have b: "\<forall>md ws. out = Success md ws \<longrightarrow>
            list_all (\<lambda>fr. fr_modseq fr = (if condstoreEnabled sess then Some ?nm else None)) ws"
    using committed(6) ws_ok by (simp split: if_splits)
  have c: "Messages (db w') \<noteq> Messages (db w) \<or> notified w' \<noteq> notified w \<or>
            (\<exists>md ws. out = Success md ws \<and> ws \<noteq> [])
          \<longrightarrow> map_option modifyIndex (findOne (db w') mailboxId) = Some ?nm"
    using quiet bumped by (cases "?ys = []") auto
  from stamped a b c show ?thesis by blast
qed

theorem C2_one_modseq_witness:
  "findOne (db world0) 1 = Some (mbox [] None) \<and>
   modifyIndex (mbox [] None) = 7 \<and>
   Messages (db (fst (onStore env0 world0 1 (cmd ActAdd [Seen] [1, 2] None) sess0))) \<noteq>
     Messages (db world0) \<and>
   list_all2 (same_or_stamped 8) (Messages (db world0))
     (Messages (db (fst (onStore env0 world0 1 (cmd ActAdd [Seen] [1, 2] None) sess0)))) \<and>
   map_option modifyIndex
     (findOne (db (fst (onStore env0 world0 1 (cmd ActAdd [Seen] [1, 2] None) sess0))) 1) = Some 8"
proof -
  have fo: "findOne (db world0) 1 = Some (mbox [] None)"
    by (simp add: model_defs input_defs)
  have mi: "modifyIndex (mbox [] None) = 7" by (simp add: mbox_def)
  have nz: "modifyIndex (mbox [] None) \<noteq> - 1" by (simp add: mbox_def)
  have bound: "\<bar>modifyIndex (mbox [] None)\<bar> < 2 ^ 53" by (simp add: mbox_def)
  have ch: "Messages (db (fst (onStore env0 world0 1 (cmd ActAdd [Seen] [1, 2] None) sess0))) \<noteq>
     Messages (db world0)"
    by (simp add: model_defs input_defs)
  let ?r = "onStore env0 world0 1 (cmd ActAdd [Seen] [1, 2] None) sess0"
  have pr: "?r = (fst ?r, snd ?r)" by simp
  from C2_one_modseq[OF pr fo nz bound] fo mi ch show ?thesis
    by simp
qed

subsection \<open>The unchangedSince guard\<close>

text \<open>
  Claim C3 as stated fails for the guard 0: the test \<^verbatim>\<open>update.unchangedSince && ...\<close> is
  false for it, so the guard is off. Here the guard is 0 and the second message has
  modseq 5: the command writes the flag to it and reports no modified uid.
\<close>

theorem C3_guard_zero_counterexample:
  "unchangedSince (cmd ActAdd [Seen] [1, 2] (Some 0)) = Some 0 \<and>
   modseq (msg 11 2 [] 5) > 0 \<and>
   msg 11 2 [] 5 \<in> set (Messages (db world0)) \<and>
   Messages (db (fst (onStore env0 world0 1 (cmd ActAdd [Seen] [1, 2] (Some 0)) sess0))) =
     [msg 10 1 [Seen] 8, msg 11 2 [Seen] 8, msg 12 3 [] 7] \<and>
   snd (onStore env0 world0 1 (cmd ActAdd [Seen] [1, 2] (Some 0)) sess0) =
     Success []
       [\<lparr>fr_uid = 1, fr_attr_uid = Some 1, fr_flags = [Seen], fr_modseq = Some 8\<rparr>,
        \<lparr>fr_uid = 2, fr_attr_uid = Some 2, fr_flags = [Seen], fr_modseq = Some 8\<rparr>]"
  by (simp add: model_defs input_defs)

text \<open>
  Claim C3, amended: for a guard other than 0. A row \<open>m\<close> that the \<^verbatim>\<open>select\<close> statement
  returns, that the \<^verbatim>\<open>queryAll\<close> test does not skip and whose modseq is above the guard is
  in the table after the command exactly as before, and when the command succeeds its
  uid is in the modified list. The ids of the table are distinct.
\<close>

theorem C3_unchangedSince:
  assumes run: "onStore e w mailboxId upd sess = (w', out)"
    and mb: "findOne (db w) mailboxId = Some mb"
    and guard: "unchangedSince upd = Some g" "g \<noteq> 0"
    and cand: "m \<in> set (select_Messages e (db w) mb upd (is_queryAll upd sess))"
    and nskip: "\<not> skip_queryAll (is_queryAll upd sess) sess m"
    and stale: "modseq m > g"
    and dist: "distinct (map msg_id (Messages (db w)))"
  shows "m \<in> set (Messages (db w')) \<and> (\<forall>md ws. out = Success md ws \<longrightarrow> uid m \<in> set md)"
proof -
  let ?qa = "is_queryAll upd sess"
  have skip: "skip_unchangedSince upd m"
    using guard stale by (simp add: skip_unchangedSince_def)
  then have same: "stored_row mb upd sess ?qa m = m"
    by (simp add: stored_row_def)
  have gs: "guard_skipped upd sess ?qa m"
    using skip nskip by (simp add: guard_skipped_def)
  from cand have mem: "m \<in> set (Messages (db w))"
    by (simp add: set_select_Messages)
  from cand have ne: "select_Messages e (db w) mb upd ?qa \<noteq> []"
    by auto
  from run show ?thesis
  proof (cases rule: onStore_cases)
    case early
    with mem show ?thesis by simp
  next
    case (empty mb')
    with mb ne show ?thesis by simp
  next
    case (rolled_back mb' err)
    with mem show ?thesis by simp
  next
    case (committed mb' st)
    from committed(1) mb have [simp]: "mb' = mb" by simp
    note tb = committed(3)[simplified]
    from committed_rows[OF tb dist] mem same
    have "m \<in> set (Messages (db w'))" by (force simp: image_iff)
    moreover have "uid m \<in> set (modified st)"
      using committed_outputs[OF tb] cand gs
      by (auto simp: loop_outputs_def Let_def init_state_def)
    ultimately show ?thesis using committed(6) by (auto split: if_splits)
  qed
qed

theorem C3_unchangedSince_witness:
  "msg 11 2 [] 5 \<in> set (select_Messages env0 (db world0) (mbox [] None)
       (cmd ActAdd [Seen] [1, 2] (Some 4)) (is_queryAll (cmd ActAdd [Seen] [1, 2] (Some 4)) sess0)) \<and>
   modseq (msg 11 2 [] 5) > 4 \<and>
   snd (onStore env0 world0 1 (cmd ActAdd [Seen] [1, 2] (Some 4)) sess0) =
     Success [2] [\<lparr>fr_uid = 1, fr_attr_uid = Some 1, fr_flags = [Seen], fr_modseq = Some 8\<rparr>] \<and>
   msg 11 2 [] 5 \<in> set (Messages (db (fst (onStore env0 world0 1
       (cmd ActAdd [Seen] [1, 2] (Some 4)) sess0)))) \<and>
   uid (msg 11 2 [] 5) \<in> set [2]"
proof -
  let ?c = "cmd ActAdd [Seen] [1, 2] (Some 4)"
  let ?r = "onStore env0 world0 1 ?c sess0"
  have pr: "?r = (fst ?r, snd ?r)" by simp
  have fo: "findOne (db world0) 1 = Some (mbox [] None)"
    by (simp add: model_defs input_defs)
  have g: "unchangedSince ?c = Some 4" "(4::int) \<noteq> 0" by (simp_all add: cmd_def)
  have cand: "msg 11 2 [] 5 \<in> set (select_Messages env0 (db world0) (mbox [] None) ?c
                (is_queryAll ?c sess0))"
    by (simp add: set_select_Messages is_candidate_def is_queryAll_def input_defs)
  have ns: "\<not> skip_queryAll (is_queryAll ?c sess0) sess0 (msg 11 2 [] 5)"
    by (simp add: skip_queryAll_def is_queryAll_def input_defs)
  have st: "modseq (msg 11 2 [] 5) > 4" by (simp add: msg_def)
  have d: "distinct (map msg_id (Messages (db world0)))" by (simp add: input_defs)
  have out: "snd ?r = Success [2]
      [\<lparr>fr_uid = 1, fr_attr_uid = Some 1, fr_flags = [Seen], fr_modseq = Some 8\<rparr>]"
    by (simp add: model_defs input_defs)
  from C3_unchangedSince[OF pr fo g cand ns st d] cand st out show ?thesis
    by simp
qed

subsection \<open>The limit on the mailbox flags\<close>

text \<open>
  Claim C4 as stated fails: the limit counts the system flags with the mailbox flags and
  is tested before each input flag, new or not. The mailbox has 95 flags of its own and
  the command adds the flag \<^verbatim>\<open>\Seen\<close>, which is a system flag and so not new: 95 flags
  and no new one do not reach 100, yet the command is rejected, since the five system
  flags and the 95 mailbox flags are 100.
\<close>

theorem C4_capacity_counterexample:
  "length (mb_flags (mbox custom95 None)) = 95 \<and>
   filter (is_new_flag (systemFlags env0) (mbox custom95 None))
     (upd_value (cmd ActAdd [Seen] [1] None)) = [] \<and>
   onStore env0 (world_of [msg 10 1 [] 3] (mbox custom95 None)) 1 (cmd ActAdd [Seen] [1] None) sess0
     = (world_of [msg 10 1 [] 3] (mbox custom95 None), Failed MailboxFlagsExceeds100)"
  by (simp add: model_defs input_defs is_new_flag_def length_custom95)

text \<open>
  Nor is a command rejected that would bring the vocabulary to a hundred flags or more
  when no candidate row is fetched: the limit is tested inside the transaction only.
\<close>

lemma capacity_not_checked_without_rows:
  "length (mb_flags (mbox [] None)) +
     length (filter (is_new_flag (systemFlags env0) (mbox [] None))
               (upd_value (cmd ActAdd fresh100 [9] None))) = 100 \<and>
   onStore env0 world0 1 (cmd ActAdd fresh100 [9] None) sess0 = (world0, Success [] [])"
proof -
  have "upd_value (cmd ActAdd fresh100 [9] None) = fresh100" by (simp add: cmd_def)
  moreover have "onStore env0 world0 1 (cmd ActAdd fresh100 [9] None) sess0 = (world0, Success [] [])"
    by (simp add: model_defs input_defs)
  moreover have "length (mb_flags (mbox [] None)) = 0" by (simp add: mbox_def)
  ultimately show ?thesis
    by (simp add: fresh100_all_new length_fresh100)
qed

text \<open>
  Claim C4, amended. For an add or set command that reaches the candidate query, the
  command fails with the capacity error exactly when at least one candidate row was
  fetched and the limit test fires at some input flag: the system flags, the mailbox
  flags and the new flags among the inputs before it are 100 or more. When it does, the
  database is as before the command (no message row, no mailbox row has changed) and
  the notifier is not called.
\<close>

theorem C4_capacity:
  assumes act: "action upd = ActAdd \<or> action upd = ActSet"
    and ok: "\<not> refreshSession_throws e" "\<not> acquireLock_throws e" "\<not> findOne_throws e"
      "\<not> query_throws e"
    and mb: "findOne (db w) mailboxId = Some mb"
    and run: "onStore e w mailboxId upd sess = (w', out)"
  shows "(out = Failed MailboxFlagsExceeds100 \<longleftrightarrow>
            select_Messages e (db w) mb upd (is_queryAll upd sess) \<noteq> [] \<and>
            capacity_exceeded (systemFlags e) mb upd) \<and>
         (out = Failed MailboxFlagsExceeds100 \<longrightarrow> db w' = db w \<and> notified w' = notified w)"
  using run
proof (cases rule: onStore_cases)
  case early
  with ok mb show ?thesis by simp
next
  case (empty mb')
  with mb show ?thesis by simp
next
  case (rolled_back mb' err)
  from rolled_back(1) mb have [simp]: "mb' = mb" by simp
  from transaction_body_error[OF rolled_back(3)] act
  have "capacity_exceeded (systemFlags e) mb upd \<and> err = MailboxFlagsExceeds100" by auto
  with rolled_back show ?thesis by (simp add: outer_catch_def)
next
  case (committed mb' st)
  from committed(1) mb have [simp]: "mb' = mb" by simp
  from act have nr: "action upd \<noteq> ActRemove" by auto
  from transaction_body_char[OF committed(3)] obtain nf where
    "mailbox_newFlags (systemFlags e) mb upd = Inr nf" by auto
  then have "\<not> capacity_exceeded (systemFlags e) mb upd"
    unfolding mailbox_newFlags_char[OF nr] by (simp split: if_splits)
  with committed(6) show ?thesis by (simp split: if_splits)
qed

theorem C4_capacity_witness:
  "select_Messages env0 (db (world_of [msg 10 1 [] 3] (mbox custom95 None))) (mbox custom95 None)
       (cmd ActAdd [''fresh''] [1] None) (is_queryAll (cmd ActAdd [''fresh''] [1] None) sess0) \<noteq> [] \<and>
   capacity_exceeded (systemFlags env0) (mbox custom95 None) (cmd ActAdd [''fresh''] [1] None) \<and>
   snd (onStore env0 (world_of [msg 10 1 [] 3] (mbox custom95 None)) 1
          (cmd ActAdd [''fresh''] [1] None) sess0) = Failed MailboxFlagsExceeds100 \<and>
   db (fst (onStore env0 (world_of [msg 10 1 [] 3] (mbox custom95 None)) 1
          (cmd ActAdd [''fresh''] [1] None) sess0)) = db (world_of [msg 10 1 [] 3] (mbox custom95 None))"
proof -
  let ?w = "world_of [msg 10 1 [] 3] (mbox custom95 None)"
  let ?c = "cmd ActAdd [''fresh''] [1] None"
  let ?r = "onStore env0 ?w 1 ?c sess0"
  have pr: "?r = (fst ?r, snd ?r)" by simp
  have act: "action ?c = ActAdd \<or> action ?c = ActSet" by (simp add: cmd_def)
  have ok: "\<not> refreshSession_throws env0" "\<not> acquireLock_throws env0" "\<not> findOne_throws env0"
    "\<not> query_throws env0" by (simp_all add: env0_def)
  have fo: "findOne (db ?w) 1 = Some (mbox custom95 None)"
    by (simp add: findOne_def world_of_def mbox_def)
  have sel: "select_Messages env0 (db ?w) (mbox custom95 None) ?c (is_queryAll ?c sess0) \<noteq> []"
    by (simp add: select_Messages_def is_queryAll_def input_defs)
  have cap: "capacity_exceeded (systemFlags env0) (mbox custom95 None) ?c"
    by (simp add: capacity_exceeded_def cmd_def mbox_def env0_def length_custom95)
  from C4_capacity[OF act ok fo pr] sel cap show ?thesis by simp
qed

subsection \<open>The lock\<close>

text \<open>
  Claim C5, at the input where it fails. The mailbox id 99 names no mailbox: the handler
  acquires the lock, throws the \<^verbatim>\<open>NONEXISTENT\<close> error from inside the outer \<^verbatim>\<open>try\<close>, whose
  \<^verbatim>\<open>catch\<close> answers the caller; \<^verbatim>\<open>releaseLock\<close> is not reached, and the lock that was
  free before the command is held after it.
\<close>

theorem C5_lock_not_released:
  "lock_held world0 = False \<and>
   findOne (db world0) 99 = None \<and>
   onStore env0 world0 99 (cmd ActAdd [Seen] [1, 2] None) sess0
     = (world0\<lparr>lock_held := True\<rparr>, Rejected ''NONEXISTENT'')"
  by (simp add: model_defs input_defs)

text \<open>
  The same for every mailbox id that names no mailbox and for an error while the
  candidate query is built; on the paths that reach the transaction, the lock is released.
\<close>

lemma onStore_nonexistent:
  assumes "\<not> refreshSession_throws e" and "\<not> acquireLock_throws e" and "\<not> findOne_throws e"
    and "findOne (db w) mailboxId = None"
  shows "onStore e w mailboxId upd sess = (w\<lparr>lock_held := True\<rparr>, Rejected ''NONEXISTENT'')"
  using assms by (simp add: onStore_def outer_catch_def)

lemma onStore_query_error:
  assumes "\<not> refreshSession_throws e" and "\<not> acquireLock_throws e" and "\<not> findOne_throws e"
    and "findOne (db w) mailboxId = Some mb" and "query_throws e"
  shows "onStore e w mailboxId upd sess
           = (w\<lparr>lock_held := True\<rparr>, Failed (CollaboratorError ''query''))"
  using assms by (simp add: onStore_def outer_catch_def)

lemma onStore_releases_after_query:
  assumes "\<not> refreshSession_throws e" and "\<not> acquireLock_throws e" and "\<not> findOne_throws e"
    and "findOne (db w) mailboxId = Some mb" and "\<not> query_throws e"
    and "\<not> releaseLock_throws e"
    and "onStore e w mailboxId upd sess = (w', out)"
  shows "\<not> lock_held w'"
  using assms unfolding onStore_def
  by (auto simp: Let_def split: prod.splits sum.splits if_splits)

subsection \<open>The replace action\<close>

text \<open>
  Claim C6, at the input where it fails. The message has the flags \<open>a\<close> and \<open>b\<close> and
  the command replaces them by the list \<open>a, a\<close>. The test compares the two distinct
  existing flags with the length of the input list, duplicates included, and finds
  every input flag among the existing ones: \<^verbatim>\<open>updated\<close> stays false, although the
  deduplicated input, the single flag \<open>a\<close>, differs from the existing set. Nothing is
  written and the message keeps both flags.
\<close>

theorem C6_set_with_duplicates:
  "store_set [''a'', ''a''] [''a'', ''b''] = ([''a''], False, empty_set) \<and>
   onStore env0 (world_of [msg 10 1 [''a'', ''b''] 3] (mbox [''a'', ''b''] None)) 1
       (cmd ActSet [''a'', ''a''] [1] None) sess0
     = (world_of [msg 10 1 [''a'', ''b''] 3] (mbox [''a'', ''b''] None), Success [] [])"
  by (simp add: model_defs input_defs)

text \<open>
  The same comparison reports an update where the deduplicated input is the existing
  set; on an input whose normalised flags are pairwise distinct it is exact.
\<close>

lemma store_set_spurious_update:
  "fst (snd (store_set [Seen, Seen] [Seen])) = True \<and> fst (store_set [Seen, Seen] [Seen]) = [Seen]"
  by (simp add: model_defs input_defs)

lemma store_set_updated_iff:
  assumes "distinct (map getFlag val)"
  shows "fst (snd (store_set val flgs)) \<longleftrightarrow> set (map getFlag val) \<noteq> set (map getFlag flgs)"
proof -
  let ?E = "set (map getFlag flgs)" and ?V = "set (map getFlag val)"
  have cE: "length (remdups (map getFlag flgs)) = card ?E"
    by (simp add: length_remdups_card_conv)
  have cV: "length val = card ?V"
    using assms distinct_card[of "map getFlag val"] by simp
  have upd: "fst (snd (store_set val flgs)) \<longleftrightarrow> card ?E \<noteq> card ?V \<or> \<not> ?V \<subseteq> ?E"
    unfolding store_set_def Let_def cE cV[symmetric]
    by (auto simp: list_ex_iff cV)
  show ?thesis
  proof
    assume "fst (snd (store_set val flgs))"
    with upd show "?V \<noteq> ?E" by auto
  next
    assume ne: "?V \<noteq> ?E"
    show "fst (snd (store_set val flgs))"
    proof (rule ccontr)
      assume "\<not> fst (snd (store_set val flgs))"
      with upd have "card ?E = card ?V" "?V \<subseteq> ?E" by auto
      then have "?V = ?E" by (simp add: card_subset_eq)
      with ne show False by simp
    qed
  qed
qed

subsection \<open>Idempotence of add\<close>

text \<open>
  Claim C7. An add command has succeeded on a database whose message ids are distinct,
  where no message of the mailbox has a modseq above the mailbox's \<^verbatim>\<open>modifyIndex\<close> and
  where that counter is below \<open>2 ^ 53\<close> in absolute value, so that adding one to it is
  exact.
  The same command is run again. In the second run no selected row yields an update
  (\<^verbatim>\<open>updated\<close> is false or the row is skipped), the database after it is the database
  before it (no message row is written, \<^verbatim>\<open>modifyIndex\<close> is not bumped), the notifier is not
  called and a successful answer has an empty response stream.
\<close>

theorem C7_add_idempotent:
  assumes act: "action upd = ActAdd"
    and first: "onStore e w mailboxId upd sess = (w1, Success md ws)"
    and mb: "findOne (db w) mailboxId = Some mb"
    and dist: "distinct (map msg_id (Messages (db w)))"
    and inv: "\<forall>r\<in>set (Messages (db w)). msg_mailbox r = mb_id mb \<longrightarrow> modseq r \<le> modifyIndex mb"
    and bound: "\<bar>modifyIndex mb\<bar> < 2 ^ 53"
    and second: "onStore e w1 mailboxId upd sess = (w2, out2)"
  shows "(\<forall>mb1. findOne (db w1) mailboxId = Some mb1 \<longrightarrow>
            (\<forall>m\<in>set (select_Messages e (db w1) mb1 upd (is_queryAll upd sess)).
               \<not> yields_update mb1 upd sess (is_queryAll upd sess) m)) \<and>
         db w2 = db w1 \<and> notified w2 = notified w1 \<and>
         (\<forall>md' ws'. out2 = Success md' ws' \<longrightarrow> ws' = [])"
proof -
  let ?qa = "is_queryAll upd sess"
  have settled: "(\<forall>m\<in>set (select_Messages e (db w1) mb1 upd ?qa). \<not> yields_update mb1 upd sess ?qa m) \<and>
      (select_Messages e (db w1) mb1 upd ?qa \<noteq> [] \<longrightarrow>
         filter (is_new_flag (systemFlags e) mb1) (upd_value upd) = [])"
    if mb1: "findOne (db w1) mailboxId = Some mb1" for mb1
    using first
  proof (cases rule: onStore_cases)
    case early
    then show ?thesis by simp
  next
    case (empty mb')
    from empty(3) have "db w1 = db w" by simp
    with empty(1,2) mb1 show ?thesis by simp
  next
    case (rolled_back mb' err)
    then show ?thesis by simp
  next
    case (committed mb' st)
    from committed(1) mb have [simp]: "mb' = mb" by simp
    note tb = committed(3)[simplified]
    from add_committed_settled[OF act mb tb dist inv bound mb1] show ?thesis by simp
  qed
  from second have rest: "db w2 = db w1 \<and> notified w2 = notified w1 \<and>
         (\<forall>md' ws'. out2 = Success md' ws' \<longrightarrow> ws' = [])"
  proof (cases rule: onStore_cases)
    case early
    then show ?thesis by simp
  next
    case (empty mb1)
    then show ?thesis by simp
  next
    case (rolled_back mb1 err)
    then show ?thesis by simp
  next
    case (committed mb1 st)
    let ?msgs = "select_Messages e (db w1) mb1 upd ?qa"
    from act have nr: "action upd \<noteq> ActRemove" by simp
    from settled[OF committed(1)] committed(2)
    have none: "\<forall>m\<in>set ?msgs. \<not> yields_update mb1 upd sess ?qa m"
      and nonew: "filter (is_new_flag (systemFlags e) mb1) (upd_value upd) = []"
      by simp_all
    from transaction_body_char[OF committed(3)] obtain nf where
      loop: "store_loop mb1 upd sess ?qa (init_state (db w1)) ?msgs = Inr st" and
      nf: "mailbox_newFlags (systemFlags e) mb1 upd = Inr nf" and
      rows: "Messages (db w2) = rows st" and
      mbs: "Mailboxes (db w2) = (if truthy (newModseq st) \<or> nf \<noteq> []
               then update_Mailboxes mb1 (newModseq st) nf (Mailboxes (db w1))
               else Mailboxes (db w1))"
      by auto
    from nf nonew have "nf = []"
      unfolding mailbox_newFlags_char[OF nr] by (simp split: if_splits)
    moreover from store_loop_no_update[OF loop none]
    have st: "rows st = Messages (db w1)" "entries st = []" "writeStream st = []"
      "newModseq st = None"
      by (simp_all add: init_state_def)
    ultimately have "Messages (db w2) = Messages (db w1)" "Mailboxes (db w2) = Mailboxes (db w1)"
      using rows mbs by (simp_all add: truthy_def)
    then have "db w2 = db w1" by (rule database_eqI)
    with committed(5,6) st show ?thesis by simp
  qed
  from settled rest show ?thesis by blast
qed

theorem C7_add_idempotent_witness:
  "snd (onStore env0 world0 1 (cmd ActAdd [Seen] [1, 2] None) sess0) =
     Success []
       [\<lparr>fr_uid = 1, fr_attr_uid = Some 1, fr_flags = [Seen], fr_modseq = Some 8\<rparr>,
        \<lparr>fr_uid = 2, fr_attr_uid = Some 2, fr_flags = [Seen], fr_modseq = Some 8\<rparr>] \<and>
   db (fst (onStore env0 (fst (onStore env0 world0 1 (cmd ActAdd [Seen] [1, 2] None) sess0)) 1
              (cmd ActAdd [Seen] [1, 2] None) sess0)) =
     db (fst (onStore env0 world0 1 (cmd ActAdd [Seen] [1, 2] None) sess0)) \<and>
   notified (fst (onStore env0 (fst (onStore env0 world0 1 (cmd ActAdd [Seen] [1, 2] None) sess0)) 1
              (cmd ActAdd [Seen] [1, 2] None) sess0)) =
     notified (fst (onStore env0 world0 1 (cmd ActAdd [Seen] [1, 2] None) sess0)) \<and>
   map_option modifyIndex (findOne (db (fst (onStore env0
       (fst (onStore env0 world0 1 (cmd ActAdd [Seen] [1, 2] None) sess0)) 1
              (cmd ActAdd [Seen] [1, 2] None) sess0))) 1) = Some 8"
proof -
  let ?c = "cmd ActAdd [Seen] [1, 2] None"
  let ?r1 = "onStore env0 world0 1 ?c sess0"
  let ?r2 = "onStore env0 (fst ?r1) 1 ?c sess0"
  have out1: "snd ?r1 = Success []
       [\<lparr>fr_uid = 1, fr_attr_uid = Some 1, fr_flags = [Seen], fr_modseq = Some 8\<rparr>,
        \<lparr>fr_uid = 2, fr_attr_uid = Some 2, fr_flags = [Seen], fr_modseq = Some 8\<rparr>]"
    by (simp add: model_defs input_defs)
  then have first: "?r1 = (fst ?r1, Success []
       [\<lparr>fr_uid = 1, fr_attr_uid = Some 1, fr_flags = [Seen], fr_modseq = Some 8\<rparr>,
        \<lparr>fr_uid = 2, fr_attr_uid = Some 2, fr_flags = [Seen], fr_modseq = Some 8\<rparr>])"
    by (metis prod.collapse)
  have second: "?r2 = (fst ?r2, snd ?r2)" by simp
  have act: "action ?c = ActAdd" by (simp add: cmd_def)
  have fo: "findOne (db world0) 1 = Some (mbox [] None)"
    by (simp add: findOne_def input_defs)
  have d: "distinct (map msg_id (Messages (db world0)))" by (simp add: input_defs)
  have inv: "\<forall>r\<in>set (Messages (db world0)). msg_mailbox r = mb_id (mbox [] None) \<longrightarrow>
               modseq r \<le> modifyIndex (mbox [] None)"
    by (simp add: input_defs)
  have bound: "\<bar>modifyIndex (mbox [] None)\<bar> < 2 ^ 53" by (simp add: mbox_def)
  have mi: "map_option modifyIndex (findOne (db (fst ?r1)) 1) = Some 8"
    by (simp add: model_defs input_defs)
  from C7_add_idempotent[OF act first fo d inv bound second] out1 mi show ?thesis
    by simp
qed



subsection \<open>Removing the Deleted flag\<close>

text \<open>
  What the remove action computes for a message that carries the flag \<^verbatim>\<open>\Deleted\<close> when
  the input matches it.
\<close>

lemma remove_deleted_modifier:
  assumes "action upd = ActRemove"
    and "Deleted \<in> set (flags r)"
    and "getFlag Deleted \<in> set (map getFlag (upd_value upd))"
  shows "\<exists>flgs' s. apply_action mb upd (flags r) = Inr (flgs', True, s) \<and>
           Deleted \<notin> set flgs' \<and>
           flags (apply_modifier (s\<lparr>set_modseq := Some nm\<rparr>) r) = flgs' \<and>
           undeleted (apply_modifier (s\<lparr>set_modseq := Some nm\<rparr>) r) \<and>
           searchable (apply_modifier (s\<lparr>set_modseq := Some nm\<rparr>) r) =
             (if specialUse mb \<in> {Some Junk, Some Trash} then searchable r else True)"
proof -
  define P where "P = (\<lambda>f. getFlag f \<in> set (map getFlag (upd_value upd)))"
  define oldFlags where "oldFlags = filter P (flags r)"
  have del: "Deleted \<in> set oldFlags"
    using assms(2,3) by (simp add: oldFlags_def P_def)
  then have ne: "oldFlags \<noteq> []" by auto
  have "P Deleted" using assms(3) by (simp add: P_def)
  then have gone: "Deleted \<notin> set (dedup (filter (\<lambda>f. \<not> P f) (flags r)))" by simp
  have act: "apply_action mb upd (flags r) = Inr (store_remove (specialUse mb) (upd_value upd) (flags r))"
    using assms(1) by (simp add: apply_action_def)
  have res: "store_remove (specialUse mb) (upd_value upd) (flags r) =
      (dedup (filter (\<lambda>f. \<not> P f) (flags r)), True,
       empty_set\<lparr>set_flags := Some (dedup (filter (\<lambda>f. \<not> P f) (flags r))),
                 set_unseen := (if Seen \<in> set oldFlags then Some True else None),
                 set_flagged := (if Flagged \<in> set oldFlags then Some False else None),
                 set_undeleted := (if Deleted \<in> set oldFlags then Some True else None),
                 set_searchable :=
                   (if Deleted \<in> set oldFlags \<and> specialUse mb \<notin> set [Some Junk, Some Trash]
                    then Some True else None),
                 set_draft := (if Draft \<in> set oldFlags then Some False else None)\<rparr>)"
    using ne unfolding store_remove_def Let_def oldFlags_def P_def by simp
  show ?thesis
    unfolding act res using del gone
    by (simp add: apply_modifier_def empty_set_def)
qed

text \<open>
  Claim C8. A remove command reaches the candidate query on a table with distinct ids.
  The row \<open>m\<close> is fetched, is not skipped, carries the flag \<^verbatim>\<open>\Deleted\<close>, which the
  input matches, and its modseq is below the new modification sequence number (the
  condition of the \<^verbatim>\<open>UPDATE\<close> statement). Then after the command the row of the table
  at the place of \<open>m\<close> is the same message without the flag \<^verbatim>\<open>\Deleted\<close> and with
  \<^verbatim>\<open>undeleted\<close> true, whatever the mailbox; its \<^verbatim>\<open>searchable\<close> is true when the mailbox's
  special use is neither Junk nor Trash, and is the \<^verbatim>\<open>searchable\<close> of \<open>m\<close>, unchanged,
  in a Junk or Trash mailbox.
\<close>

theorem C8_remove_deleted:
  assumes act: "action upd = ActRemove"
    and ok: "\<not> refreshSession_throws e" "\<not> acquireLock_throws e" "\<not> findOne_throws e"
      "\<not> query_throws e"
    and mb: "findOne (db w) mailboxId = Some mb"
    and run: "onStore e w mailboxId upd sess = (w', out)"
    and dist: "distinct (map msg_id (Messages (db w)))"
    and cand: "m \<in> set (select_Messages e (db w) mb upd (is_queryAll upd sess))"
    and nskip: "\<not> skip_queryAll (is_queryAll upd sess) sess m" "\<not> skip_unchangedSince upd m"
    and del: "Deleted \<in> set (flags m)"
    and match: "getFlag Deleted \<in> set (map getFlag (upd_value upd))"
    and applies: "modseq m < next_modseq mb"
  shows "list_all2
           (\<lambda>r r'. r = m \<longrightarrow>
              msg_id r' = msg_id m \<and> Deleted \<notin> set (flags r') \<and> undeleted r' \<and>
              searchable r' =
                (if specialUse mb \<in> {Some Junk, Some Trash} then searchable m else True))
           (Messages (db w)) (Messages (db w'))"
proof -
  let ?qa = "is_queryAll upd sess"
  let ?P = "\<lambda>r'. msg_id r' = msg_id m \<and> Deleted \<notin> set (flags r') \<and> undeleted r' \<and>
              searchable r' =
                (if specialUse mb \<in> {Some Junk, Some Trash} then searchable m else True)"
  from remove_deleted_modifier[OF act del match, of mb "next_modseq mb"] obtain flgs' s where
    a: "apply_action mb upd (flags m) = Inr (flgs', True, s)" and
    p: "?P (apply_modifier (s\<lparr>set_modseq := Some (next_modseq mb)\<rparr>) m)"
    by auto
  have y: "yields_update mb upd sess ?qa m"
    using nskip a by (simp add: yields_update_def)
  have st: "stored_row mb upd sess ?qa m =
              apply_modifier (s\<lparr>set_modseq := Some (next_modseq mb)\<rparr>) m"
    using stored_row_update[OF y a] applies by simp
  from cand have c: "is_candidate e mb upd ?qa m"
    by (simp add: set_select_Messages)
  from cand have ne: "select_Messages e (db w) mb upd ?qa \<noteq> []"
    by auto
  from run show ?thesis
  proof (cases rule: onStore_cases)
    case early
    with ok mb show ?thesis by simp
  next
    case (empty mb')
    with mb ne show ?thesis by simp
  next
    case (rolled_back mb' err)
    from rolled_back(1) mb have [simp]: "mb' = mb" by simp
    from transaction_body_error[OF rolled_back(3)] act show ?thesis by auto
  next
    case (committed mb' st')
    from committed(1) mb have [simp]: "mb' = mb" by simp
    note tb = committed(3)[simplified]
    show ?thesis
      unfolding committed_rows[OF tb dist]
      using c st p by (simp add: list_all2_map2 list_all2_same)
  qed
qed

theorem C8_remove_deleted_witness:
  "Messages (db (fst (onStore env0 (world_of [msg 10 1 [Deleted, Seen] 3] (mbox [] (Some Trash))) 1
       (cmd ActRemove [Deleted] [1] None) sess0))) = [(msg 10 1 [Seen] 8)\<lparr>searchable := False\<rparr>] \<and>
   Messages (db (fst (onStore env0 (world_of [msg 10 1 [Deleted, Seen] 3] (mbox [] None)) 1
       (cmd ActRemove [Deleted] [1] None) sess0))) = [msg 10 1 [Seen] 8] \<and>
   list_all2
     (\<lambda>r r'. r = msg 10 1 [Deleted, Seen] 3 \<longrightarrow>
        msg_id r' = 10 \<and> Deleted \<notin> set (flags r') \<and> undeleted r' \<and> \<not> searchable r')
     [msg 10 1 [Deleted, Seen] 3]
     (Messages (db (fst (onStore env0 (world_of [msg 10 1 [Deleted, Seen] 3] (mbox [] (Some Trash))) 1
       (cmd ActRemove [Deleted] [1] None) sess0)))) \<and>
   list_all2
     (\<lambda>r r'. r = msg 10 1 [Deleted, Seen] 3 \<longrightarrow>
        msg_id r' = 10 \<and> Deleted \<notin> set (flags r') \<and> undeleted r' \<and> searchable r')
     [msg 10 1 [Deleted, Seen] 3]
     (Messages (db (fst (onStore env0 (world_of [msg 10 1 [Deleted, Seen] 3] (mbox [] None)) 1
       (cmd ActRemove [Deleted] [1] None) sess0))))"
proof -
  let ?m = "msg 10 1 [Deleted, Seen] 3"
  let ?c = "cmd ActRemove [Deleted] [1] None"
  have act: "action ?c = ActRemove" by (simp add: cmd_def)
  have ok: "\<not> refreshSession_throws env0" "\<not> acquireLock_throws env0" "\<not> findOne_throws env0"
    "\<not> query_throws env0" by (simp_all add: env0_def)
  have ns: "\<not> skip_queryAll (is_queryAll ?c sess0) sess0 ?m" "\<not> skip_unchangedSince ?c ?m"
    by (simp_all add: skip_queryAll_def skip_unchangedSince_def is_queryAll_def input_defs)
  have del: "Deleted \<in> set (flags ?m)" by (simp add: msg_def)
  have match: "getFlag Deleted \<in> set (map getFlag (upd_value ?c))" by (simp add: cmd_def)
  have srch: "\<not> searchable ?m" by (simp add: msg_def)
  have mid: "msg_id ?m = 10" by (simp add: msg_def)
  have inst: "list_all2
     (\<lambda>r r'. r = ?m \<longrightarrow>
        msg_id r' = msg_id ?m \<and> Deleted \<notin> set (flags r') \<and> undeleted r' \<and>
        searchable r' = (if specialUse (mbox [] su) \<in> {Some Junk, Some Trash}
                         then searchable ?m else True))
     (Messages (db (world_of [?m] (mbox [] su))))
     (Messages (db (fst (onStore env0 (world_of [?m] (mbox [] su)) 1 ?c sess0))))" for su
  proof -
    let ?w = "world_of [?m] (mbox [] su)"
    let ?r = "onStore env0 ?w 1 ?c sess0"
    have pr: "?r = (fst ?r, snd ?r)" by simp
    have fo: "findOne (db ?w) 1 = Some (mbox [] su)"
      by (simp add: findOne_def world_of_def mbox_def)
    have d: "distinct (map msg_id (Messages (db ?w)))" by (simp add: world_of_def)
    have cand: "?m \<in> set (select_Messages env0 (db ?w) (mbox [] su) ?c (is_queryAll ?c sess0))"
      by (simp add: set_select_Messages is_candidate_def is_queryAll_def input_defs)
    have ap: "modseq ?m < next_modseq (mbox [] su)"
      by (simp add: msg_def mbox_def next_modseq_def js_plus_def double_round_def)
    from C8_remove_deleted[OF act ok fo pr d cand ns del match ap]
    show ?thesis .
  qed
  have rows: "Messages (db (world_of [?m] (mbox [] su))) = [?m]" for su
    by (simp add: world_of_def)
  have t: "specialUse (mbox [] (Some Trash)) \<in> {Some Junk, Some Trash}"
    and n: "specialUse (mbox [] None) \<notin> {Some Junk, Some Trash}"
    by (simp_all add: mbox_def)
  have w1: "list_all2
     (\<lambda>r r'. r = ?m \<longrightarrow>
        msg_id r' = 10 \<and> Deleted \<notin> set (flags r') \<and> undeleted r' \<and> \<not> searchable r')
     [?m] (Messages (db (fst (onStore env0 (world_of [?m] (mbox [] (Some Trash))) 1 ?c sess0))))"
    using inst[of "Some Trash"] unfolding rows if_P[OF t] mid using srch by simp
  have w2: "list_all2
     (\<lambda>r r'. r = ?m \<longrightarrow>
        msg_id r' = 10 \<and> Deleted \<notin> set (flags r') \<and> undeleted r' \<and> searchable r')
     [?m] (Messages (db (fst (onStore env0 (world_of [?m] (mbox [] None)) 1 ?c sess0))))"
    using inst[of None] unfolding rows if_not_P[OF n] mid by simp
  have e1: "Messages (db (fst (onStore env0 (world_of [?m] (mbox [] (Some Trash))) 1 ?c sess0)))
      = [(msg 10 1 [Seen] 8)\<lparr>searchable := False\<rparr>]"
    by (simp add: model_defs input_defs)
  have e2: "Messages (db (fst (onStore env0 (world_of [?m] (mbox [] None)) 1 ?c sess0)))
      = [msg 10 1 [Seen] 8]"
    by (simp add: model_defs input_defs)
  from w1 w2 e1 e2 show ?thesis by blast
qed

subsection \<open>Commands that only extend the vocabulary\<close>

text \<open>
  Claim C9 as stated fails when no candidate row is fetched: every candidate (there is
  none) yields \<^verbatim>\<open>updated = false\<close> and the input flag \<open>fresh\<close> is in neither the system
  flags nor the mailbox flags, yet the transaction is not entered and the mailbox flags
  stay empty.
\<close>

theorem C9_no_rows_counterexample:
  "action (cmd ActAdd [''fresh''] [9] None) = ActAdd \<and>
   select_Messages env0 (db world0) (mbox [] None) (cmd ActAdd [''fresh''] [9] None)
     (is_queryAll (cmd ActAdd [''fresh''] [9] None) sess0) = [] \<and>
   is_new_flag (systemFlags env0) (mbox [] None) ''fresh'' \<and>
   map_option mb_flags
     (findOne (db (fst (onStore env0 world0 1 (cmd ActAdd [''fresh''] [9] None) sess0))) 1) = Some []"
  by (simp add: model_defs input_defs is_new_flag_def)

text \<open>
  It fails as well when the limit test fires: the message carries the flag \<open>fresh\<close>
  already, the mailbox has 95 other flags, and the command is rejected.
\<close>

lemma vocabulary_full_rejected:
  "onStore env0 (world_of [msg 10 1 [''fresh''] 3] (mbox custom95 None)) 1
       (cmd ActAdd [''fresh''] [1] None) sess0
     = (world_of [msg 10 1 [''fresh''] 3] (mbox custom95 None), Failed MailboxFlagsExceeds100)"
  by (simp add: model_defs input_defs length_custom95)

text \<open>
  Claim C9, amended. For an add or set command that reaches the candidate query and
  fetches at least one row, where no fetched row yields an update, the limit test does
  not fire and some input flag is new to the mailbox vocabulary: the message rows are
  as before, the mailbox row is rewritten with its flags followed by the new input flags
  (without repetitions) and with its \<^verbatim>\<open>modifyIndex\<close> as before, the notifier is not called,
  and the command succeeds with an empty response stream.
\<close>

theorem C9_vocabulary_only:
  assumes act: "action upd = ActAdd \<or> action upd = ActSet"
    and ok: "\<not> refreshSession_throws e" "\<not> acquireLock_throws e" "\<not> findOne_throws e"
      "\<not> query_throws e"
    and mb: "findOne (db w) mailboxId = Some mb"
    and ne: "select_Messages e (db w) mb upd (is_queryAll upd sess) \<noteq> []"
    and none: "\<forall>m\<in>set (select_Messages e (db w) mb upd (is_queryAll upd sess)).
                 \<not> yields_update mb upd sess (is_queryAll upd sess) m"
    and cap: "\<not> capacity_exceeded (systemFlags e) mb upd"
    and new: "filter (is_new_flag (systemFlags e) mb) (upd_value upd) \<noteq> []"
    and run: "onStore e w mailboxId upd sess = (w', out)"
  shows "Messages (db w') = Messages (db w) \<and>
         Mailboxes (db w') = update_Mailboxes mb None
             (filter (is_new_flag (systemFlags e) mb) (upd_value upd)) (Mailboxes (db w)) \<and>
         findOne (db w') mailboxId =
           Some (mb\<lparr>mb_flags := dedup (mb_flags mb @
                      filter (is_new_flag (systemFlags e) mb) (upd_value upd))\<rparr>) \<and>
         notified w' = notified w \<and>
         (\<exists>md. out = Success md [])"
  using run
proof (cases rule: onStore_cases)
  case early
  with ok mb show ?thesis by simp
next
  case (empty mb')
  with mb ne show ?thesis by simp
next
  case (rolled_back mb' err)
  from rolled_back(1) mb have [simp]: "mb' = mb" by simp
  from transaction_body_error[OF rolled_back(3)] act cap show ?thesis by auto
next
  case (committed mb' st)
  let ?qa = "is_queryAll upd sess"
  let ?msgs = "select_Messages e (db w) mb upd ?qa"
  let ?nf = "filter (is_new_flag (systemFlags e) mb) (upd_value upd)"
  from committed(1) mb have [simp]: "mb' = mb" by simp
  note tb = committed(3)[simplified]
  from act have nr: "action upd \<noteq> ActRemove" by auto
  from transaction_body_char[OF tb] obtain nf where
    loop: "store_loop mb upd sess ?qa (init_state (db w)) ?msgs = Inr st" and
    nf: "mailbox_newFlags (systemFlags e) mb upd = Inr nf" and
    rows: "Messages (db w') = rows st" and
    mbs: "Mailboxes (db w') = (if truthy (newModseq st) \<or> nf \<noteq> []
             then update_Mailboxes mb (newModseq st) nf (Mailboxes (db w))
             else Mailboxes (db w))"
    by auto
  from nf cap have nf_eq: "nf = ?nf"
    unfolding mailbox_newFlags_char[OF nr] by simp
  from store_loop_no_update[OF loop none]
  have st: "rows st = Messages (db w)" "entries st = []" "writeStream st = []"
    "newModseq st = None"
    by (simp_all add: init_state_def)
  have m1: "Messages (db w') = Messages (db w)" using rows st by simp
  have m2: "Mailboxes (db w') = update_Mailboxes mb None ?nf (Mailboxes (db w))"
    using mbs st new nf_eq by simp
  have m3: "findOne (db w') mailboxId = Some (mb\<lparr>mb_flags := dedup (mb_flags mb @ ?nf)\<rparr>)"
    using findOne_update_Mailboxes[OF mb, of None ?nf] new m2 by (simp add: findOne_def)
  have m4: "notified w' = notified w" using committed(5) st by simp
  have m5: "\<exists>md. out = Success md []" using committed(6) st by simp
  from m1 m2 m3 m4 m5 show ?thesis by blast
qed

theorem C9_vocabulary_only_witness:
  "list_all (\<lambda>m. \<not> yields_update (mbox [] None) (cmd ActAdd [''fresh''] [1] None) sess0
                    (is_queryAll (cmd ActAdd [''fresh''] [1] None) sess0) m)
     (select_Messages env0 (db (world_of [msg 10 1 [''fresh''] 3] (mbox [] None))) (mbox [] None)
        (cmd ActAdd [''fresh''] [1] None) (is_queryAll (cmd ActAdd [''fresh''] [1] None) sess0)) \<and>
   filter (is_new_flag (systemFlags env0) (mbox [] None)) (upd_value (cmd ActAdd [''fresh''] [1] None))
     = [''fresh''] \<and>
   findOne (db (fst (onStore env0 (world_of [msg 10 1 [''fresh''] 3] (mbox [] None)) 1
                       (cmd ActAdd [''fresh''] [1] None) sess0))) 1
     = Some (mbox [''fresh''] None) \<and>
   Messages (db (fst (onStore env0 (world_of [msg 10 1 [''fresh''] 3] (mbox [] None)) 1
                       (cmd ActAdd [''fresh''] [1] None) sess0))) = [msg 10 1 [''fresh''] 3] \<and>
   (\<exists>md. snd (onStore env0 (world_of [msg 10 1 [''fresh''] 3] (mbox [] None)) 1
                       (cmd ActAdd [''fresh''] [1] None) sess0) = Success md [])"
proof -
  let ?w = "world_of [msg 10 1 [''fresh''] 3] (mbox [] None)"
  let ?c = "cmd ActAdd [''fresh''] [1] None"
  let ?r = "onStore env0 ?w 1 ?c sess0"
  have pr: "?r = (fst ?r, snd ?r)" by simp
  have act: "action ?c = ActAdd \<or> action ?c = ActSet" by (simp add: cmd_def)
  have ok: "\<not> refreshSession_throws env0" "\<not> acquireLock_throws env0" "\<not> findOne_throws env0"
    "\<not> query_throws env0" by (simp_all add: env0_def)
  have fo: "findOne (db ?w) 1 = Some (mbox [] None)"
    by (simp add: findOne_def world_of_def mbox_def)
  have sel: "select_Messages env0 (db ?w) (mbox [] None) ?c (is_queryAll ?c sess0)
               = [msg 10 1 [''fresh''] 3]"
    by (simp add: select_Messages_def is_queryAll_def input_defs)
  have ne: "select_Messages env0 (db ?w) (mbox [] None) ?c (is_queryAll ?c sess0) \<noteq> []"
    by (simp add: sel)
  have ny: "\<not> yields_update (mbox [] None) ?c sess0 (is_queryAll ?c sess0) (msg 10 1 [''fresh''] 3)"
    by (simp add: yields_update_def model_defs input_defs)
  then have none: "\<forall>m\<in>set (select_Messages env0 (db ?w) (mbox [] None) ?c (is_queryAll ?c sess0)).
      \<not> yields_update (mbox [] None) ?c sess0 (is_queryAll ?c sess0) m"
    by (simp add: sel)
  have cap: "\<not> capacity_exceeded (systemFlags env0) (mbox [] None) ?c"
    by (simp add: capacity_exceeded_def cmd_def mbox_def env0_def)
  have new: "filter (is_new_flag (systemFlags env0) (mbox [] None)) (upd_value ?c) = [''fresh'']"
    by (simp add: is_new_flag_def model_defs input_defs)
  then have newne: "filter (is_new_flag (systemFlags env0) (mbox [] None)) (upd_value ?c) \<noteq> []"
    by simp
  note inst = C9_vocabulary_only[OF act ok fo ne none cap newne pr]
  from inst have "findOne (db (fst ?r)) 1 =
      Some ((mbox [] None)\<lparr>mb_flags := dedup (mb_flags (mbox [] None) @ [''fresh''])\<rparr>)"
    unfolding new by blast
  then have a: "findOne (db (fst ?r)) 1 = Some (mbox [''fresh''] None)"
    by (simp add: mbox_def dedup_def)
  from inst have "Messages (db (fst ?r)) = Messages (db ?w)" by blast
  then have b: "Messages (db (fst ?r)) = [msg 10 1 [''fresh''] 3]"
    by (simp add: world_of_def)
  from inst have c: "\<exists>md. snd ?r = Success md []" by blast
  have d: "list_all (\<lambda>m. \<not> yields_update (mbox [] None) ?c sess0 (is_queryAll ?c sess0) m)
     (select_Messages env0 (db ?w) (mbox [] None) ?c (is_queryAll ?c sess0))"
    using none by (simp add: list_all_iff)
  from a b c d new show ?thesis by blast
qed

subsection \<open>No candidate rows\<close>

text \<open>
  Claim C10. When the candidate query returns no row, the transaction is not entered:
  the database (message rows, mailbox flags, \<^verbatim>\<open>modifyIndex\<close>) is as before, the notifier
  is not called, and the handler answers success with an empty modified list and an empty
  response stream. That the query ran means that the session refresh, the lock
  acquisition, the mailbox lookup and the query construction did not fail.
\<close>

theorem C10_no_candidates:
  assumes "\<not> refreshSession_throws e" and "\<not> acquireLock_throws e"
    and "\<not> findOne_throws e" and "\<not> query_throws e"
    and "findOne (db w) mailboxId = Some mb"
    and "select_Messages e (db w) mb upd (is_queryAll upd sess) = []"
    and "onStore e w mailboxId upd sess = (w', out)"
  shows "db w' = db w \<and> notified w' = notified w \<and> lock_held w' = releaseLock_throws e \<and>
         out = Success [] []"
  using assms unfolding onStore_def
  by (auto simp: Let_def run_transaction_def init_state_def)

theorem C10_no_candidates_witness:
  "findOne (db world0) 1 = Some (mbox [] None) \<and>
   select_Messages env0 (db world0) (mbox [] None) (cmd ActAdd [''fresh''] [9] None)
     (is_queryAll (cmd ActAdd [''fresh''] [9] None) sess0) = [] \<and>
   db (fst (onStore env0 world0 1 (cmd ActAdd [''fresh''] [9] None) sess0)) = db world0 \<and>
   notified (fst (onStore env0 world0 1 (cmd ActAdd [''fresh''] [9] None) sess0)) = [] \<and>
   snd (onStore env0 world0 1 (cmd ActAdd [''fresh''] [9] None) sess0) = Success [] []"
proof -
  have sel: "select_Messages env0 (db world0) (mbox [] None) (cmd ActAdd [''fresh''] [9] None)
               (is_queryAll (cmd ActAdd [''fresh''] [9] None) sess0) = []"
    by (simp add: model_defs input_defs)
  have fo: "findOne (db world0) 1 = Some (mbox [] None)"
    by (simp add: model_defs input_defs)
  have e: "\<not> refreshSession_throws env0" "\<not> acquireLock_throws env0"
    "\<not> findOne_throws env0" "\<not> query_throws env0"
    by (simp_all add: env0_def)
  from C10_no_candidates[OF e fo sel surjective_pairing] fo sel show ?thesis
    by (simp add: world0_def world_of_def)
qed

end
